theory Spec2Isabelle
  imports Main "HOL-Library.Monad_Syntax"
begin

section \<open>Stored values: the Comparer contract\<close>

text \<open>
  The trees store values implementing \<^verbatim>\<open>containers.Comparer\<close> (methods \<^verbatim>\<open>Equal\<close> and
  \<^verbatim>\<open>Less\<close>). The repository's Comparer is \<^verbatim>\<open>KeyValue\<close>: a key that decides \<^verbatim>\<open>Equal\<close> and
  \<^verbatim>\<open>Less\<close>, and a second field that they ignore. The key is an \<^verbatim>\<open>int\<close> in the source;
  only its order is used, so it is any linear order here. The second field is called
  \<^verbatim>\<open>value\<close> in the source and \<open>payload\<close> here. Go's built-in \<^verbatim>\<open>==\<close> on two interface
  values holding a \<^verbatim>\<open>KeyValue\<close> compares both fields: it is HOL's \<open>=\<close>.
\<close>

datatype ('k, 'p) KeyValue = KeyValue (key: 'k) (payload: 'p)

definition Equal :: "('k, 'p) KeyValue \<Rightarrow> ('k, 'p) KeyValue \<Rightarrow> bool" where
  "Equal p q = (key p = key q)"

definition Less :: "('k::linorder, 'p) KeyValue \<Rightarrow> ('k, 'p) KeyValue \<Rightarrow> bool" where
  "Less p q = (key p < key q)"

section \<open>BinaryTree (binaryTree.go)\<close>

text \<open>
  A \<^verbatim>\<open>*btNode\<close> is a value of type \<open>'a btNode\<close>: \<open>NilBT\<close> is the nil pointer, and
  \<open>BTNode v l r h\<close> is a node with the fields \<^verbatim>\<open>value\<close>, \<^verbatim>\<open>left\<close>, \<^verbatim>\<open>right\<close>, \<^verbatim>\<open>height\<close>
  in the order of the struct. Every node has one owner, so a pointer to a node is
  modelled by the subtree it points to.
\<close>

datatype 'a btNode = NilBT | BTNode 'a "'a btNode" "'a btNode" int

record 'a BinaryTree =
  count :: int
  root :: "'a btNode"

definition emptyTree :: "'a BinaryTree" where
  "emptyTree = \<lparr>count = 0, root = NilBT\<rparr>"

definition newBTNode :: "'a \<Rightarrow> 'a btNode \<Rightarrow> 'a btNode \<Rightarrow> 'a btNode" where
  "newBTNode v leftTree rightTree = BTNode v leftTree rightTree 0"

text \<open>\<^verbatim>\<open>clone\<close> copies value, left and right; the new node's height is Go's zero value.\<close>

fun clone :: "'a btNode \<Rightarrow> 'a btNode" where
  "clone NilBT = NilBT"
| "clone (BTNode v l r h) = BTNode v (clone l) (clone r) 0"

fun size_bt :: "'a btNode \<Rightarrow> int" where
  "size_bt NilBT = 0"
| "size_bt (BTNode v l r h) = 1 + size_bt l + size_bt r"

fun getHeight :: "'a btNode \<Rightarrow> int" where
  "getHeight NilBT = 0"
| "getHeight (BTNode v l r h) =
     (if l = NilBT \<and> r = NilBT then 0 else 1 + max (getHeight l) (getHeight r))"

datatype error = EmptyTreeError string

definition RootValue :: "'a BinaryTree \<Rightarrow> error + 'a" where
  "RootValue tree =
     (case root tree of
        NilBT \<Rightarrow> Inl (EmptyTreeError ''The empty tree has no root value'')
      | BTNode v l r h \<Rightarrow> Inr v)"

definition LeftSubtree :: "'a BinaryTree \<Rightarrow> error + 'a BinaryTree" where
  "LeftSubtree tree =
     (case root tree of
        NilBT \<Rightarrow> Inl (EmptyTreeError ''The empty tree has no left subtree'')
      | BTNode v l r h \<Rightarrow> Inr \<lparr>count = size_bt l, root = clone l\<rparr>)"

definition RightSubtree :: "'a BinaryTree \<Rightarrow> error + 'a BinaryTree" where
  "RightSubtree tree =
     (case root tree of
        NilBT \<Rightarrow> Inl (EmptyTreeError ''The empty tree has no right subtree'')
      | BTNode v l r h \<Rightarrow> Inr \<lparr>count = size_bt r, root = clone r\<rparr>)"

definition Size :: "'a BinaryTree \<Rightarrow> int" where
  "Size tree = count tree"

definition Clear :: "'a BinaryTree \<Rightarrow> 'a BinaryTree" where
  "Clear tree = tree\<lparr>count := 0, root := NilBT\<rparr>"

definition Empty :: "'a BinaryTree \<Rightarrow> bool" where
  "Empty tree = (count tree = 0)"

text \<open>
  \<^verbatim>\<open>btNode.contains\<close> is only ever called behind a nil test (\<^verbatim>\<open>node.left != nil &&
  node.left.contains(e)\<close>, and the root test of its callers); \<open>contains n e\<close> is that
  guarded call, false on the nil pointer. The comparison is Go's \<^verbatim>\<open>==\<close>.
\<close>

fun contains :: "'a btNode \<Rightarrow> 'a \<Rightarrow> bool" where
  "contains NilBT e = False"
| "contains (BTNode v l r h) e =
     (if v = e then True
      else if contains l e then True
      else if contains r e then True
      else False)"

definition BinaryTree_Contains :: "'a BinaryTree \<Rightarrow> 'a \<Rightarrow> bool" where
  "BinaryTree_Contains tree e = (if root tree = NilBT then False else contains (root tree) e)"

text \<open>
  A visitor is called once per value; a traversal is modelled by the list of the values
  it passes to the visitor, in order. As for \<open>contains\<close>, the nil tests before each
  recursive call are the \<open>NilBT\<close> equation.
\<close>

fun visitInorder :: "'a btNode \<Rightarrow> 'a list" where
  "visitInorder NilBT = []"
| "visitInorder (BTNode v l r h) = visitInorder l @ [v] @ visitInorder r"

definition VisitInorder :: "'a BinaryTree \<Rightarrow> 'a list" where
  "VisitInorder tree = (if root tree = NilBT then [] else visitInorder (root tree))"

section \<open>BinarySearchTree (binarySearchTree.go)\<close>

text \<open>
  The loops of \<^verbatim>\<open>Contains\<close>, \<^verbatim>\<open>Get\<close>, \<^verbatim>\<open>Add\<close> and \<^verbatim>\<open>Remove\<close> walk down from the root and
  change the tree in place; each is a recursive function on the node the loop variable
  points to, which returns the subtree as the loop leaves it. A function that
  dereferences its node returns \<open>None\<close> on the nil pointer, where Go panics.
\<close>

fun Contains_loop :: "('k::linorder, 'p) KeyValue \<Rightarrow> ('k, 'p) KeyValue btNode \<Rightarrow> bool" where
  "Contains_loop e NilBT = False"
| "Contains_loop e (BTNode x l r h) =
     (if Equal e x then True
      else if Less e x then Contains_loop e l
      else Contains_loop e r)"

definition BinarySearchTree_Contains ::
  "('k::linorder, 'p) KeyValue BinaryTree \<Rightarrow> ('k, 'p) KeyValue \<Rightarrow> bool" where
  "BinarySearchTree_Contains tree e = Contains_loop e (root tree)"

text \<open>\<^verbatim>\<open>Get\<close> returns \<^verbatim>\<open>(node.value, true)\<close> as \<open>Some\<close> and \<^verbatim>\<open>(nil, false)\<close> as \<open>None\<close>.\<close>

fun Get_loop ::
  "('k::linorder, 'p) KeyValue \<Rightarrow> ('k, 'p) KeyValue btNode \<Rightarrow> ('k, 'p) KeyValue option" where
  "Get_loop v NilBT = None"
| "Get_loop v (BTNode x l r h) =
     (if Equal v x then Some x
      else if Less v x then Get_loop v l
      else Get_loop v r)"

definition Get ::
  "('k::linorder, 'p) KeyValue BinaryTree \<Rightarrow> ('k, 'p) KeyValue \<Rightarrow> ('k, 'p) KeyValue option" where
  "Get tree v = Get_loop v (root tree)"

text \<open>
  The loop of \<^verbatim>\<open>Add\<close>, from a non-nil node: the result is the subtree after the loop and
  whether \<^verbatim>\<open>tree.count++\<close> ran.
\<close>

fun Add_loop ::
  "('k::linorder, 'p) KeyValue \<Rightarrow> ('k, 'p) KeyValue btNode
     \<Rightarrow> (('k, 'p) KeyValue btNode \<times> bool) option" where
  "Add_loop v NilBT = None"
| "Add_loop v (BTNode x l r h) =
     (if Equal v x then Some (BTNode v l r h, False)
      else if Less v x then
        (if l = NilBT then Some (BTNode x (newBTNode v NilBT NilBT) r h, True)
         else (case Add_loop v l of
                 None \<Rightarrow> None
               | Some (l', added) \<Rightarrow> Some (BTNode x l' r h, added)))
      else
        (if r = NilBT then Some (BTNode x l (newBTNode v NilBT NilBT) h, True)
         else (case Add_loop v r of
                 None \<Rightarrow> None
               | Some (r', added) \<Rightarrow> Some (BTNode x l r' h, added))))"

definition BinarySearchTree_Add ::
  "('k::linorder, 'p) KeyValue \<Rightarrow> ('k, 'p) KeyValue BinaryTree
     \<Rightarrow> ('k, 'p) KeyValue BinaryTree option" where
  "BinarySearchTree_Add v tree =
     (if root tree = NilBT
      then Some (tree\<lparr>root := BTNode v NilBT NilBT 0, count := count tree + 1\<rparr>)
      else (case Add_loop v (root tree) of
              None \<Rightarrow> None
            | Some (n, added) \<Rightarrow>
                Some (tree\<lparr>root := n, count := (if added then count tree + 1 else count tree)\<rparr>)))"

text \<open>
  \<^verbatim>\<open>deleteNode\<close>, third case: the loop goes to the leftmost node of \<^verbatim>\<open>node.right\<close> (the
  successor), the values of the two nodes are swapped and the successor is unlinked, its
  right subtree taking its place. \<open>detachSuccessor n\<close> is the successor's value and the
  subtree \<open>n\<close> without the successor node.
\<close>

fun detachSuccessor :: "'a btNode \<Rightarrow> ('a \<times> 'a btNode) option" where
  "detachSuccessor NilBT = None"
| "detachSuccessor (BTNode x l r h) =
     (if l = NilBT then Some (x, r)
      else (case detachSuccessor l of
              None \<Rightarrow> None
            | Some (s, l') \<Rightarrow> Some (s, BTNode x l' r h)))"

text \<open>
  \<open>deleteNode n\<close> is what stands in the place of node \<open>n\<close> afterwards: \<^verbatim>\<open>attach\<close> puts
  \<^verbatim>\<open>node.right\<close> or \<^verbatim>\<open>node.left\<close> into the parent's slot (or the root), and the third case
  keeps the node with the successor's value.
\<close>

fun deleteNode :: "'a btNode \<Rightarrow> 'a btNode option" where
  "deleteNode NilBT = None"
| "deleteNode (BTNode x l r h) =
     (if l = NilBT then Some r
      else if r = NilBT then Some l
      else (case detachSuccessor r of
              None \<Rightarrow> None
            | Some (s, r') \<Rightarrow> Some (BTNode s l r' h)))"

text \<open>
  The search loop of \<^verbatim>\<open>Remove\<close> followed by \<^verbatim>\<open>deleteNode\<close>: the subtree afterwards, and
  whether a node was deleted (\<^verbatim>\<open>tree.count--\<close>).
\<close>

fun Remove_loop ::
  "('k::linorder, 'p) KeyValue \<Rightarrow> ('k, 'p) KeyValue btNode
     \<Rightarrow> (('k, 'p) KeyValue btNode \<times> bool) option" where
  "Remove_loop v NilBT = Some (NilBT, False)"
| "Remove_loop v (BTNode x l r h) =
     (if Equal v x then
        (case deleteNode (BTNode x l r h) of None \<Rightarrow> None | Some n \<Rightarrow> Some (n, True))
      else if Less v x then
        (case Remove_loop v l of
           None \<Rightarrow> None
         | Some (l', deleted) \<Rightarrow> Some (BTNode x l' r h, deleted))
      else
        (case Remove_loop v r of
           None \<Rightarrow> None
         | Some (r', deleted) \<Rightarrow> Some (BTNode x l r' h, deleted)))"

definition BinarySearchTree_Remove ::
  "('k::linorder, 'p) KeyValue \<Rightarrow> ('k, 'p) KeyValue BinaryTree
     \<Rightarrow> ('k, 'p) KeyValue BinaryTree option" where
  "BinarySearchTree_Remove v tree =
     (case Remove_loop v (root tree) of
        None \<Rightarrow> None
      | Some (n, deleted) \<Rightarrow>
          Some (tree\<lparr>root := n, count := (if deleted then count tree - 1 else count tree)\<rparr>))"

text \<open>The public operations that change a tree, and a run of them from the empty tree.\<close>

datatype 'a operation = Add 'a | Remove 'a | ClearAll

fun BinarySearchTree_apply ::
  "('k::linorder, 'p) KeyValue operation \<Rightarrow> ('k, 'p) KeyValue BinaryTree
     \<Rightarrow> ('k, 'p) KeyValue BinaryTree option" where
  "BinarySearchTree_apply (Add v) tree = BinarySearchTree_Add v tree"
| "BinarySearchTree_apply (Remove v) tree = BinarySearchTree_Remove v tree"
| "BinarySearchTree_apply ClearAll tree = Some (Clear tree)"

text \<open>
  A client's sequence of calls on one tree: each operation runs on the tree the previous
  one left; a panic ends the run.
\<close>

fun run :: "('op \<Rightarrow> 't \<Rightarrow> 't option) \<Rightarrow> 'op list \<Rightarrow> 't \<Rightarrow> 't option" where
  "run step [] tree = Some tree"
| "run step (x # xs) tree = do { tree' \<leftarrow> step x tree; run step xs tree' }"

section \<open>AVLTree (avlTree.go)\<close>

text \<open>
  The methods that AVL trees add to \<^verbatim>\<open>btNode\<close> change the receiver in place, through
  pointers that must not be nil; a method is a function from the node to the node
  afterwards, \<open>None\<close> where Go dereferences a nil pointer.
  \<open>storedHeight\<close> is the local variable \<^verbatim>\<open>leftHeight\<close> (\<^verbatim>\<open>rightHeight\<close>) of \<^verbatim>\<open>setHeight\<close> and
  \<^verbatim>\<open>balance\<close>: the child's height field, or -1 for a nil child.
\<close>

fun storedHeight :: "'a btNode \<Rightarrow> int" where
  "storedHeight NilBT = -1"
| "storedHeight (BTNode v l r h) = h"

fun setHeight :: "'a btNode \<Rightarrow> 'a btNode option" where
  "setHeight NilBT = None"
| "setHeight (BTNode v l r h) =
     (let leftHeight = storedHeight l; rightHeight = storedHeight r
      in if leftHeight < rightHeight then Some (BTNode v l r (rightHeight + 1))
         else Some (BTNode v l r (leftHeight + 1)))"

definition newAVLNode :: "'a \<Rightarrow> 'a btNode \<Rightarrow> 'a btNode \<Rightarrow> 'a btNode option" where
  "newAVLNode v l r = setHeight (newBTNode v l r)"

fun balance :: "'a btNode \<Rightarrow> int option" where
  "balance NilBT = None"
| "balance (BTNode v l r h) = Some (storedHeight l - storedHeight r)"

fun rotateL :: "'a btNode \<Rightarrow> 'a btNode option" where
  "rotateL (BTNode v l (BTNode rv rl rr rh) h) =
     do { newLeft \<leftarrow> newAVLNode v l rl;
          Some (BTNode rv newLeft rr h) }"
| "rotateL _ = None"

fun rotateR :: "'a btNode \<Rightarrow> 'a btNode option" where
  "rotateR (BTNode v (BTNode lv ll lr lh) r h) =
     do { newRight \<leftarrow> newAVLNode v lr r;
          Some (BTNode lv ll newRight h) }"
| "rotateR _ = None"

fun rotateLR :: "'a btNode \<Rightarrow> 'a btNode option" where
  "rotateLR (BTNode v (BTNode lv ll (BTNode lrv lrl lrr lrh) lh) r h) =
     do { newRight \<leftarrow> newAVLNode v lrr r;
          left' \<leftarrow> setHeight (BTNode lv ll lrl lh);
          Some (BTNode lrv left' newRight h) }"
| "rotateLR _ = None"

fun rotateRL :: "'a btNode \<Rightarrow> 'a btNode option" where
  "rotateRL (BTNode v l (BTNode rv (BTNode rlv rll rlr rlh) rr rh) h) =
     do { newLeft \<leftarrow> newAVLNode v l rll;
          right' \<leftarrow> setHeight (BTNode rv rlr rr rh);
          Some (BTNode rlv newLeft right' h) }"
| "rotateRL _ = None"

fun rebalance :: "'a btNode \<Rightarrow> 'a btNode option" where
  "rebalance NilBT = None"
| "rebalance (BTNode v l r h) =
     do { b \<leftarrow> balance (BTNode v l r h);
          node \<leftarrow>
            (if b = 2 then
               do { lb \<leftarrow> balance l;
                    if lb = -1 then rotateLR (BTNode v l r h) else rotateR (BTNode v l r h) }
             else if b = -2 then
               do { rb \<leftarrow> balance r;
                    if rb = 1 then rotateRL (BTNode v l r h) else rotateL (BTNode v l r h) }
             else Some (BTNode v l r h));
          setHeight node }"

fun btNode_add ::
  "('k::linorder, 'p) KeyValue \<Rightarrow> ('k, 'p) KeyValue btNode \<Rightarrow> ('k, 'p) KeyValue btNode option" where
  "btNode_add v NilBT = None"
| "btNode_add v (BTNode x l r h) =
     (if Equal v x then Some (BTNode v l r h)
      else if Less v x then
        (if l = NilBT then
           do { n \<leftarrow> newAVLNode v NilBT NilBT; setHeight (BTNode x n r h) }
         else
           do { l' \<leftarrow> btNode_add v l; rebalance (BTNode x l' r h) })
      else
        (if r = NilBT then
           do { n \<leftarrow> newAVLNode v NilBT NilBT; setHeight (BTNode x l n h) }
         else
           do { r' \<leftarrow> btNode_add v r; rebalance (BTNode x l r' h) }))"

text \<open>\<^verbatim>\<open>removeSuccessor\<close> returns the successor's value and the node that replaces the receiver.\<close>

fun removeSuccessor :: "'a btNode \<Rightarrow> ('a \<times> 'a btNode) option" where
  "removeSuccessor NilBT = None"
| "removeSuccessor (BTNode x l r h) =
     (if l = NilBT then Some (x, r)
      else do { (resultValue, resultNode) \<leftarrow> removeSuccessor l;
                node \<leftarrow> rebalance (BTNode x resultNode r h);
                Some (resultValue, node) })"

fun btNode_remove ::
  "('k::linorder, 'p) KeyValue \<Rightarrow> ('k, 'p) KeyValue btNode \<Rightarrow> ('k, 'p) KeyValue btNode option" where
  "btNode_remove v NilBT = None"
| "btNode_remove v (BTNode x l r h) =
     (if Equal v x then
        (if l = NilBT then Some r
         else if r = NilBT then Some l
         else do { (s, r') \<leftarrow> removeSuccessor r; rebalance (BTNode s l r' h) })
      else if Less v x then
        (if l = NilBT then Some (BTNode x l r h)
         else do { l' \<leftarrow> btNode_remove v l; rebalance (BTNode x l' r h) })
      else
        (if r = NilBT then Some (BTNode x l r h)
         else do { r' \<leftarrow> btNode_remove v r; rebalance (BTNode x l r' h) }))"

text \<open>
  \<^verbatim>\<open>AVLTree.Add\<close> decides on \<^verbatim>\<open>tree.count++\<close> with \<^verbatim>\<open>btNode.contains\<close>, the search of
  BinaryTree that compares with \<^verbatim>\<open>==\<close>; \<^verbatim>\<open>AVLTree.Remove\<close> calls \<^verbatim>\<open>tree.Contains\<close>, which
  is the method of the embedded BinarySearchTree.
\<close>

definition AVLTree_Add ::
  "('k::linorder, 'p) KeyValue \<Rightarrow> ('k, 'p) KeyValue BinaryTree
     \<Rightarrow> ('k, 'p) KeyValue BinaryTree option" where
  "AVLTree_Add v tree =
     (if root tree = NilBT then
        do { n \<leftarrow> newAVLNode v NilBT NilBT; Some (tree\<lparr>root := n, count := 1\<rparr>) }
      else
        do { let c = (if \<not> contains (root tree) v then count tree + 1 else count tree);
             n \<leftarrow> btNode_add v (root tree);
             Some (tree\<lparr>count := c, root := n\<rparr>) })"

definition AVLTree_Remove ::
  "('k::linorder, 'p) KeyValue \<Rightarrow> ('k, 'p) KeyValue BinaryTree
     \<Rightarrow> ('k, 'p) KeyValue BinaryTree option" where
  "AVLTree_Remove v tree =
     (if \<not> BinarySearchTree_Contains tree v then Some tree
      else do { n \<leftarrow> btNode_remove v (root tree);
                Some (tree\<lparr>count := count tree - 1, root := n\<rparr>) })"

definition AVLTree_Height :: "'a BinaryTree \<Rightarrow> int" where
  "AVLTree_Height t = (case root t of NilBT \<Rightarrow> 0 | BTNode v l r h \<Rightarrow> h)"

fun AVLTree_apply ::
  "('k::linorder, 'p) KeyValue operation \<Rightarrow> ('k, 'p) KeyValue BinaryTree
     \<Rightarrow> ('k, 'p) KeyValue BinaryTree option" where
  "AVLTree_apply (Add v) tree = AVLTree_Add v tree"
| "AVLTree_apply (Remove v) tree = AVLTree_Remove v tree"
| "AVLTree_apply ClearAll tree = Some (Clear tree)"

section \<open>TwoThreeTree (twoThreeTree.go)\<close>

text \<open>
  A \<^verbatim>\<open>*twoThreeNode\<close> is a value of type \<open>'a twoThreeNode\<close>: \<open>NilTT\<close> is the nil pointer;
  the other constructors are the three values of the field \<^verbatim>\<open>nodeType\<close>, each with the
  fields that are in use for that type, in the order
  \<^verbatim>\<open>left\<close>, \<^verbatim>\<open>value1\<close>, \<^verbatim>\<open>mid\<close>, \<^verbatim>\<open>value2\<close>, \<^verbatim>\<open>right\<close>:
  \<^item> \<open>Node3 left value1 mid value2 right\<close> is a 3-node;
  \<^item> \<open>Node2 left value1 mid\<close> is a 2-node. Its fields \<^verbatim>\<open>value2\<close> and \<^verbatim>\<open>right\<close> hold what
    an earlier state of the node left there. Every statement that turns an inner 2-node
    into a 3-node assigns both first. The two statements that turn a leaf into a 3-node
    (in \<^verbatim>\<open>add\<close>) assign \<^verbatim>\<open>value2\<close> only: \<^verbatim>\<open>right\<close> is nil there, since the child pointers of
    a leaf are only ever assigned child pointers of leaves;
  \<^item> \<open>Node1 left\<close> is the 1-node that a deletion leaves behind until the parent repairs
    it: only its \<^verbatim>\<open>left\<close> is read afterwards.
  A function returns \<open>None\<close> where Go dereferences a nil pointer or panics, and where it
  would read a field that is not in use (a 1-node met outside of a repair).
\<close>

datatype 'a twoThreeNode =
    NilTT
  | Node1 "'a twoThreeNode"
  | Node2 "'a twoThreeNode" 'a "'a twoThreeNode"
  | Node3 "'a twoThreeNode" 'a "'a twoThreeNode" 'a "'a twoThreeNode"

record 'a TwoThreeTree =
  count23 :: int
  root23 :: "'a twoThreeNode"

definition emptyTwoThreeTree :: "'a TwoThreeTree" where
  "emptyTwoThreeTree = \<lparr>count23 = 0, root23 = NilTT\<rparr>"

definition TwoThreeTree_Empty :: "'a TwoThreeTree \<Rightarrow> bool" where
  "TwoThreeTree_Empty t = (count23 t = 0)"

definition TwoThreeTree_Size :: "'a TwoThreeTree \<Rightarrow> int" where
  "TwoThreeTree_Size t = count23 t"

definition TwoThreeTree_Clear :: "'a TwoThreeTree \<Rightarrow> 'a TwoThreeTree" where
  "TwoThreeTree_Clear t = t\<lparr>count23 := 0, root23 := NilTT\<rparr>"

definition newTwoThreeNode :: "'a \<Rightarrow> 'a twoThreeNode \<Rightarrow> 'a twoThreeNode \<Rightarrow> 'a twoThreeNode" where
  "newTwoThreeNode v leftChild midChild = Node2 leftChild v midChild"

fun nodeType :: "'a twoThreeNode \<Rightarrow> int option" where
  "nodeType NilTT = None"
| "nodeType (Node1 l) = Some 1"
| "nodeType (Node2 l v1 m) = Some 2"
| "nodeType (Node3 l v1 m v2 r) = Some 3"

fun isLeaf :: "'a twoThreeNode \<Rightarrow> bool option" where
  "isLeaf NilTT = None"
| "isLeaf (Node1 l) = Some (l = NilTT)"
| "isLeaf (Node2 l v1 m) = Some (l = NilTT)"
| "isLeaf (Node3 l v1 m v2 r) = Some (l = NilTT)"

fun twoThreeNode_height :: "'a twoThreeNode \<Rightarrow> int option" where
  "twoThreeNode_height NilTT = None"
| "twoThreeNode_height (Node1 l) =
     (if l = NilTT then Some 0 else map_option (\<lambda>h. 1 + h) (twoThreeNode_height l))"
| "twoThreeNode_height (Node2 l v1 m) =
     (if l = NilTT then Some 0 else map_option (\<lambda>h. 1 + h) (twoThreeNode_height l))"
| "twoThreeNode_height (Node3 l v1 m v2 r) =
     (if l = NilTT then Some 0 else map_option (\<lambda>h. 1 + h) (twoThreeNode_height l))"

definition TwoThreeTree_Height :: "'a TwoThreeTree \<Rightarrow> int option" where
  "TwoThreeTree_Height t = (if root23 t = NilTT then Some 0 else twoThreeNode_height (root23 t))"

text \<open>
  \<^verbatim>\<open>get\<close>: the outer \<open>option\<close> is the panic, the inner one the result
  (\<^verbatim>\<open>(value, true)\<close> is \<open>Some value\<close> and \<^verbatim>\<open>(nil, false)\<close> is \<open>None\<close>).
\<close>

fun twoThreeNode_get ::
  "('k::linorder, 'p) KeyValue \<Rightarrow> ('k, 'p) KeyValue twoThreeNode
     \<Rightarrow> ('k, 'p) KeyValue option option" where
  "twoThreeNode_get v NilTT = None"
| "twoThreeNode_get v (Node1 l) = None"
| "twoThreeNode_get v (Node2 l v1 m) =
     (if Less v v1 then (if l = NilTT then Some None else twoThreeNode_get v l)
      else if Equal v v1 then Some (Some v1)
      else (if l = NilTT then Some None else twoThreeNode_get v m))"
| "twoThreeNode_get v (Node3 l v1 m v2 r) =
     (if Less v v1 then (if l = NilTT then Some None else twoThreeNode_get v l)
      else if Equal v v1 then Some (Some v1)
      else if Less v v2 then (if l = NilTT then Some None else twoThreeNode_get v m)
      else if Equal v v2 then Some (Some v2)
      else (if l = NilTT then Some None else twoThreeNode_get v r))"

definition TwoThreeTree_Get ::
  "('k::linorder, 'p) KeyValue TwoThreeTree \<Rightarrow> ('k, 'p) KeyValue
     \<Rightarrow> ('k, 'p) KeyValue option option" where
  "TwoThreeTree_Get t v = (if root23 t = NilTT then Some None else twoThreeNode_get v (root23 t))"

definition TwoThreeTree_Contains ::
  "('k::linorder, 'p) KeyValue TwoThreeTree \<Rightarrow> ('k, 'p) KeyValue \<Rightarrow> bool option" where
  "TwoThreeTree_Contains t v =
     (if root23 t = NilTT then Some False
      else map_option (\<lambda>found. found \<noteq> None) (twoThreeNode_get v (root23 t)))"

text \<open>
  \<^verbatim>\<open>add\<close> returns a node and whether a value was added. Its callers compare the node
  with the receiver (\<^verbatim>\<open>newLeft == r.left\<close>): \<open>Same n a\<close> is the receiver itself, changed in
  place to \<open>n\<close>; \<open>Split n a\<close> is a newly allocated node \<open>n\<close>.
\<close>

datatype 'a addResult = Same "'a twoThreeNode" bool | Split "'a twoThreeNode" bool

fun twoThreeNode_add ::
  "('k::linorder, 'p) KeyValue \<Rightarrow> ('k, 'p) KeyValue twoThreeNode
     \<Rightarrow> ('k, 'p) KeyValue addResult option" where
  "twoThreeNode_add v NilTT = None"
| "twoThreeNode_add v (Node1 l) = None"
| "twoThreeNode_add v (Node2 l v1 m) =
     (if Less v v1 then
        (if l = NilTT then Some (Same (Node3 l v m v1 NilTT) True)
         else do {
           res \<leftarrow> twoThreeNode_add v l;
           (case res of
              Same l' addition \<Rightarrow> Some (Same (Node2 l' v1 m) addition)
            | Split newLeft addition \<Rightarrow>
                (case newLeft of
                   Node2 nl nv nm \<Rightarrow> Some (Same (Node3 nl nv nm v1 m) True)
                 | _ \<Rightarrow> None)) })
      else if Equal v v1 then Some (Same (Node2 l v m) False)
      else
        (if l = NilTT then Some (Same (Node3 l v1 m v NilTT) True)
         else do {
           res \<leftarrow> twoThreeNode_add v m;
           (case res of
              Same m' addition \<Rightarrow> Some (Same (Node2 l v1 m') addition)
            | Split newMid addition \<Rightarrow>
                (case newMid of
                   Node2 nl nv nm \<Rightarrow> Some (Same (Node3 l v1 nl nv nm) addition)
                 | _ \<Rightarrow> None)) }))"
| "twoThreeNode_add v (Node3 l v1 m v2 r) =
     (if Less v v1 then
        (if l = NilTT then
           Some (Split (newTwoThreeNode v1 (newTwoThreeNode v NilTT NilTT)
                                           (newTwoThreeNode v2 NilTT NilTT)) True)
         else do {
           res \<leftarrow> twoThreeNode_add v l;
           (case res of
              Same l' addition \<Rightarrow> Some (Same (Node3 l' v1 m v2 r) addition)
            | Split newLeft addition \<Rightarrow>
                Some (Split (newTwoThreeNode v1 newLeft (newTwoThreeNode v2 m r)) True)) })
      else if Equal v v1 then Some (Same (Node3 l v m v2 r) False)
      else if Less v v2 then
        (if l = NilTT then
           Some (Split (newTwoThreeNode v (newTwoThreeNode v1 NilTT NilTT)
                                          (newTwoThreeNode v2 NilTT NilTT)) True)
         else do {
           res \<leftarrow> twoThreeNode_add v m;
           (case res of
              Same m' addition \<Rightarrow> Some (Same (Node3 l v1 m' v2 r) addition)
            | Split newMid addition \<Rightarrow>
                (case newMid of
                   Node2 nl nv nm \<Rightarrow>
                     Some (Split (newTwoThreeNode nv (newTwoThreeNode v1 l nl)
                                                     (newTwoThreeNode v2 nm r)) True)
                 | _ \<Rightarrow> None)) })
      else if Equal v v2 then Some (Same (Node3 l v1 m v r) False)
      else
        (if l = NilTT then
           Some (Split (newTwoThreeNode v2 (newTwoThreeNode v1 NilTT NilTT)
                                           (newTwoThreeNode v NilTT NilTT)) True)
         else do {
           res \<leftarrow> twoThreeNode_add v r;
           (case res of
              Same r' addition \<Rightarrow> Some (Same (Node3 l v1 m v2 r') addition)
            | Split newRight addition \<Rightarrow>
                Some (Split (newTwoThreeNode v2 (newTwoThreeNode v1 l m) newRight) True)) }))"

definition TwoThreeTree_Add ::
  "('k::linorder, 'p) KeyValue \<Rightarrow> ('k, 'p) KeyValue TwoThreeTree
     \<Rightarrow> ('k, 'p) KeyValue TwoThreeTree option" where
  "TwoThreeTree_Add v t =
     (if root23 t = NilTT then Some (t\<lparr>root23 := newTwoThreeNode v NilTT NilTT, count23 := 1\<rparr>)
      else do {
        res \<leftarrow> twoThreeNode_add v (root23 t);
        (case res of
           Same n addition \<Rightarrow>
             Some (t\<lparr>root23 := n, count23 := (if addition then count23 t + 1 else count23 t)\<rparr>)
         | Split n addition \<Rightarrow>
             Some (t\<lparr>root23 := n, count23 := (if addition then count23 t + 1 else count23 t)\<rparr>)) })"

text \<open>The fields \<^verbatim>\<open>left\<close>, \<^verbatim>\<open>mid\<close> and \<^verbatim>\<open>right\<close> of a node, where they are in use.\<close>

fun leftOf :: "'a twoThreeNode \<Rightarrow> 'a twoThreeNode option" where
  "leftOf NilTT = None"
| "leftOf (Node1 l) = Some l"
| "leftOf (Node2 l v1 m) = Some l"
| "leftOf (Node3 l v1 m v2 r) = Some l"

fun midOf :: "'a twoThreeNode \<Rightarrow> 'a twoThreeNode option" where
  "midOf (Node2 l v1 m) = Some m"
| "midOf (Node3 l v1 m v2 r) = Some m"
| "midOf _ = None"

fun rightOf :: "'a twoThreeNode \<Rightarrow> 'a twoThreeNode option" where
  "rightOf (Node3 l v1 m v2 r) = Some r"
| "rightOf _ = None"

text \<open>
  The repairs of a deletion. Each one is written for the node types that its comment in
  the source gives as its precondition (\<^verbatim>\<open>Pre:\<close>), which are the types its callers have
  tested; it is \<open>None\<close> on every other shape. \<^verbatim>\<open>shiftLeft\<close> and \<^verbatim>\<open>shiftRight\<close> are part of
  the assignments of their callers.
\<close>

fun leftBorrowsFromMid :: "'a twoThreeNode \<Rightarrow> 'a twoThreeNode option" where
  "leftBorrowsFromMid (Node2 (Node1 a) v1 (Node3 b x c y d)) =
     Some (Node2 (Node2 a v1 b) x (Node2 c y d))"
| "leftBorrowsFromMid (Node3 (Node1 a) v1 (Node3 b x c y d) v2 r) =
     Some (Node3 (Node2 a v1 b) x (Node2 c y d) v2 r)"
| "leftBorrowsFromMid (Node3 (Node1 a) v1 (Node2 b x c) v2 r) =
     Some (Node3 (Node2 a v1 b) x (Node1 c) v2 r)"
| "leftBorrowsFromMid _ = None"

fun midBorrowsFromLeft :: "'a twoThreeNode \<Rightarrow> 'a twoThreeNode option" where
  "midBorrowsFromLeft (Node2 (Node3 a x b y c) v1 (Node1 d)) =
     Some (Node2 (Node2 a x b) y (Node2 c v1 d))"
| "midBorrowsFromLeft (Node3 (Node3 a x b y c) v1 (Node1 d) v2 r) =
     Some (Node3 (Node2 a x b) y (Node2 c v1 d) v2 r)"
| "midBorrowsFromLeft _ = None"

fun midBorrowsFromRight :: "'a twoThreeNode \<Rightarrow> 'a twoThreeNode option" where
  "midBorrowsFromRight (Node3 l v1 (Node1 a) v2 (Node3 b x c y d)) =
     Some (Node3 l v1 (Node2 a v2 b) x (Node2 c y d))"
| "midBorrowsFromRight _ = None"

fun rightBorrowsFromMid :: "'a twoThreeNode \<Rightarrow> 'a twoThreeNode option" where
  "rightBorrowsFromMid (Node3 l v1 (Node2 b x c) v2 (Node1 a)) =
     Some (Node3 l v1 (Node1 b) x (Node2 c v2 a))"
| "rightBorrowsFromMid (Node3 l v1 (Node3 b x c y d) v2 (Node1 a)) =
     Some (Node3 l v1 (Node2 b x c) y (Node2 d v2 a))"
| "rightBorrowsFromMid _ = None"

fun foldLeftIntoMid :: "'a twoThreeNode \<Rightarrow> 'a twoThreeNode option" where
  "foldLeftIntoMid (Node3 (Node1 a) v1 (Node2 b x c) v2 r) =
     Some (Node2 (Node3 a v1 b x c) v2 r)"
| "foldLeftIntoMid _ = None"

fun foldMidIntoRight :: "'a twoThreeNode \<Rightarrow> 'a twoThreeNode option" where
  "foldMidIntoRight (Node3 l v1 (Node1 a) v2 (Node2 b x c)) =
     Some (Node2 l v1 (Node3 a v2 b x c))"
| "foldMidIntoRight _ = None"

fun foldRightIntoMid :: "'a twoThreeNode \<Rightarrow> 'a twoThreeNode option" where
  "foldRightIntoMid (Node3 l v1 (Node2 a x b) v2 (Node1 c)) =
     Some (Node2 l v1 (Node3 a x b v2 c))"
| "foldRightIntoMid _ = None"

fun pushLeftIntoMid :: "'a twoThreeNode \<Rightarrow> 'a twoThreeNode option" where
  "pushLeftIntoMid (Node2 (Node1 a) v1 (Node2 b x c)) = Some (Node1 (Node3 a v1 b x c))"
| "pushLeftIntoMid _ = None"

fun pushMidIntoLeft :: "'a twoThreeNode \<Rightarrow> 'a twoThreeNode option" where
  "pushMidIntoLeft (Node2 (Node2 a x b) v1 (Node1 c)) = Some (Node1 (Node3 a x b v1 c))"
| "pushMidIntoLeft _ = None"

text \<open>
  The three \<^verbatim>\<open>if\<close> statements at the end of \<^verbatim>\<open>remove\<close> (\<^verbatim>\<open>if any child is a 1-node, fix it\<close>),
  in the order of the source. After \<^verbatim>\<open>pushLeftIntoMid\<close> the receiver is a 1-node whose
  \<^verbatim>\<open>mid\<close> and \<^verbatim>\<open>left\<close> point to the same 3-node, so the second test is false: that is the
  first case of \<open>fixMid\<close>.
\<close>

definition fixLeft :: "'a twoThreeNode \<Rightarrow> 'a twoThreeNode option" where
  "fixLeft r =
     do { lt \<leftarrow> leftOf r \<bind> nodeType;
          if lt = 1 then
            do { mt \<leftarrow> midOf r \<bind> nodeType;
                 st \<leftarrow> nodeType r;
                 borrow \<leftarrow> (if mt = 3 then Some True
                            else if st = 3 then do { rt \<leftarrow> rightOf r \<bind> nodeType; Some (rt = 3) }
                            else Some False);
                 if borrow then
                   do { r1 \<leftarrow> leftBorrowsFromMid r;
                        mt1 \<leftarrow> midOf r1 \<bind> nodeType;
                        if mt1 = 1 then midBorrowsFromRight r1 else Some r1 }
                 else if st = 3 then foldLeftIntoMid r
                 else pushLeftIntoMid r }
          else Some r }"

definition fixMid :: "'a twoThreeNode \<Rightarrow> 'a twoThreeNode option" where
  "fixMid r =
     (case r of
        Node1 l \<Rightarrow> Some r
      | _ \<Rightarrow>
        do { mt \<leftarrow> midOf r \<bind> nodeType;
             if mt = 1 then
               do { lt \<leftarrow> leftOf r \<bind> nodeType;
                    if lt = 3 then midBorrowsFromLeft r
                    else do { st \<leftarrow> nodeType r;
                              if st = 3 then
                                do { rt \<leftarrow> rightOf r \<bind> nodeType;
                                     if rt = 3 then midBorrowsFromRight r
                                     else foldMidIntoRight r }
                              else pushMidIntoLeft r } }
             else Some r })"

definition fixRight :: "'a twoThreeNode \<Rightarrow> 'a twoThreeNode option" where
  "fixRight r =
     do { st \<leftarrow> nodeType r;
          if st = 3 then
            do { rt \<leftarrow> rightOf r \<bind> nodeType;
                 if rt = 1 then
                   do { lt \<leftarrow> leftOf r \<bind> nodeType;
                        borrow \<leftarrow> (if lt = 3 then Some True
                                   else do { mt \<leftarrow> midOf r \<bind> nodeType; Some (mt = 3) });
                        if borrow then
                          do { r1 \<leftarrow> rightBorrowsFromMid r;
                               mt1 \<leftarrow> midOf r1 \<bind> nodeType;
                               if mt1 = 1 then midBorrowsFromLeft r1 else Some r1 }
                        else foldRightIntoMid r }
                 else Some r }
          else Some r }"

definition fixChildren :: "'a twoThreeNode \<Rightarrow> 'a twoThreeNode option" where
  "fixChildren r = do { r1 \<leftarrow> fixLeft r; r2 \<leftarrow> fixMid r1; fixRight r2 }"

text \<open>
  \<^verbatim>\<open>remove(v, target, which)\<close>. The argument \<open>target\<close> says whether \<^verbatim>\<open>target != nil\<close>. The
  result is the receiver afterwards, the returned \<^verbatim>\<open>deletion\<close>, and the value that the
  leaf has assigned to \<^verbatim>\<open>target.value1\<close> or \<^verbatim>\<open>target.value2\<close> (\<^verbatim>\<open>which\<close>), if any: the node
  that passed itself as the target stores it in that field.
\<close>

fun twoThreeNode_remove ::
  "('k::linorder, 'p) KeyValue \<Rightarrow> bool \<Rightarrow> ('k, 'p) KeyValue twoThreeNode
     \<Rightarrow> (('k, 'p) KeyValue twoThreeNode \<times> bool \<times> ('k, 'p) KeyValue option) option" where
  "twoThreeNode_remove v target NilTT = None"
| "twoThreeNode_remove v target (Node1 l) = None"
| "twoThreeNode_remove v target (Node2 l v1 m) =
     (if l = NilTT then
        (if target then Some (Node1 l, True, Some v1)
         else if Less v v1 then Some (Node2 l v1 m, False, None)
         else if Equal v v1 then Some (Node1 l, True, None)
         else Some (Node2 l v1 m, False, None))
      else
        do { (r1, deletion, moved) \<leftarrow>
               (if target then
                  do { (l', d, s) \<leftarrow> twoThreeNode_remove v True l;
                       Some (Node2 l' v1 m, True, s) }
                else if Less v v1 then
                  do { (l', d, s) \<leftarrow> twoThreeNode_remove v False l;
                       Some (Node2 l' v1 m, d, None) }
                else if Equal v v1 then
                  do { (m', d, s) \<leftarrow> twoThreeNode_remove v True m;
                       Some (Node2 l (case s of Some x \<Rightarrow> x | None \<Rightarrow> v1) m', d, None) }
                else
                  do { (m', d, s) \<leftarrow> twoThreeNode_remove v False m;
                       Some (Node2 l v1 m', d, None) });
             r2 \<leftarrow> fixChildren r1;
             Some (r2, deletion, moved) })"
| "twoThreeNode_remove v target (Node3 l v1 m v2 r) =
     (if l = NilTT then
        (if target then Some (Node2 l v2 m, True, Some v1)
         else if Less v v1 then Some (Node3 l v1 m v2 r, False, None)
         else if Equal v v1 then Some (Node2 l v2 m, True, None)
         else if Less v v2 then Some (Node3 l v1 m v2 r, False, None)
         else if \<not> Equal v v2 then Some (Node3 l v1 m v2 r, False, None)
         else Some (Node2 l v1 m, True, None))
      else
        do { (r1, deletion, moved) \<leftarrow>
               (if target then
                  do { (l', d, s) \<leftarrow> twoThreeNode_remove v True l;
                       Some (Node3 l' v1 m v2 r, True, s) }
                else if Less v v1 then
                  do { (l', d, s) \<leftarrow> twoThreeNode_remove v False l;
                       Some (Node3 l' v1 m v2 r, d, None) }
                else if Equal v v1 then
                  do { (m', d, s) \<leftarrow> twoThreeNode_remove v True m;
                       Some (Node3 l (case s of Some x \<Rightarrow> x | None \<Rightarrow> v1) m' v2 r, d, None) }
                else if Less v v2 then
                  do { (m', d, s) \<leftarrow> twoThreeNode_remove v False m;
                       Some (Node3 l v1 m' v2 r, d, None) }
                else if Equal v v2 then
                  do { (r', d, s) \<leftarrow> twoThreeNode_remove v True r;
                       Some (Node3 l v1 m (case s of Some x \<Rightarrow> x | None \<Rightarrow> v2) r', d, None) }
                else
                  do { (r', d, s) \<leftarrow> twoThreeNode_remove v False r;
                       Some (Node3 l v1 m v2 r', d, None) });
             r2 \<leftarrow> fixChildren r1;
             Some (r2, deletion, moved) })"

definition TwoThreeTree_Remove ::
  "('k::linorder, 'p) KeyValue \<Rightarrow> ('k, 'p) KeyValue TwoThreeTree
     \<Rightarrow> ('k, 'p) KeyValue TwoThreeTree option" where
  "TwoThreeTree_Remove v t =
     (if root23 t = NilTT then Some t
      else do {
        (n, deletion, moved) \<leftarrow> twoThreeNode_remove v False (root23 t);
        let c = (if deletion then count23 t - 1 else count23 t);
        nt \<leftarrow> nodeType n;
        if nt = 1 then do { l \<leftarrow> leftOf n; Some (t\<lparr>count23 := c, root23 := l\<rparr>) }
        else Some (t\<lparr>count23 := c, root23 := n\<rparr>) })"

fun TwoThreeTree_apply ::
  "('k::linorder, 'p) KeyValue operation \<Rightarrow> ('k, 'p) KeyValue TwoThreeTree
     \<Rightarrow> ('k, 'p) KeyValue TwoThreeTree option" where
  "TwoThreeTree_apply (Add v) t = TwoThreeTree_Add v t"
| "TwoThreeTree_apply (Remove v) t = TwoThreeTree_Remove v t"
| "TwoThreeTree_apply ClearAll t = Some (TwoThreeTree_Clear t)"

text \<open>
  The visitors: the list of the values passed to the visitor, \<open>None\<close> on a nil receiver
  (\<^verbatim>\<open>r.isLeaf()\<close> dereferences it) and on a 1-node.
\<close>

fun twoThreeNode_visitInorder :: "'a twoThreeNode \<Rightarrow> 'a list option" where
  "twoThreeNode_visitInorder NilTT = None"
| "twoThreeNode_visitInorder (Node1 l) = None"
| "twoThreeNode_visitInorder (Node2 l v1 m) =
     (if l = NilTT then Some [v1]
      else do { a \<leftarrow> twoThreeNode_visitInorder l;
                b \<leftarrow> twoThreeNode_visitInorder m;
                Some (a @ [v1] @ b) })"
| "twoThreeNode_visitInorder (Node3 l v1 m v2 r) =
     (if l = NilTT then Some [v1, v2]
      else do { a \<leftarrow> twoThreeNode_visitInorder l;
                b \<leftarrow> twoThreeNode_visitInorder m;
                c \<leftarrow> twoThreeNode_visitInorder r;
                Some (a @ [v1] @ b @ [v2] @ c) })"

definition Visit :: "'a TwoThreeTree \<Rightarrow> 'a list option" where
  "Visit t = (if root23 t = NilTT then Some [] else twoThreeNode_visitInorder (root23 t))"

fun twoThreeNode_visitPreorder :: "'a twoThreeNode \<Rightarrow> 'a list option" where
  "twoThreeNode_visitPreorder NilTT = None"
| "twoThreeNode_visitPreorder (Node1 l) = None"
| "twoThreeNode_visitPreorder (Node2 l v1 m) =
     (if l = NilTT then Some [v1]
      else do { a \<leftarrow> twoThreeNode_visitPreorder l;
                b \<leftarrow> twoThreeNode_visitPreorder m;
                Some ([v1] @ a @ b) })"
| "twoThreeNode_visitPreorder (Node3 l v1 m v2 r) =
     (if l = NilTT then Some [v1, v2]
      else do { a \<leftarrow> twoThreeNode_visitPreorder l;
                b \<leftarrow> twoThreeNode_visitPreorder m;
                c \<leftarrow> twoThreeNode_visitPreorder r;
                Some ([v1, v2] @ a @ b @ c) })"

definition VisitPreorder :: "'a TwoThreeTree \<Rightarrow> 'a list option" where
  "VisitPreorder t = (if root23 t = NilTT then Some [] else twoThreeNode_visitPreorder (root23 t))"

section \<open>External inorder iterators (binaryTree.go, twoThreeTree.go)\<close>

text \<open>
  \<^verbatim>\<open>stack.LinkedStack\<close> is a list with its top at the head: \<^verbatim>\<open>Push\<close> is \<open>#\<close>, \<^verbatim>\<open>Pop\<close> fails
  on \<open>[]\<close>, \<^verbatim>\<open>Clear\<close> gives \<open>[]\<close>, \<^verbatim>\<open>Empty\<close> is \<open>= []\<close>.
  \<open>pushLeftPath\<close> is the loop \<^verbatim>\<open>for node != nil { stack.Push(node); node = node.left }\<close> of
  \<^verbatim>\<open>Reset\<close> and \<^verbatim>\<open>Next\<close>.
\<close>

record 'a inorderIterator =
  stack :: "'a btNode list"
  root_it :: "'a btNode"

fun pushLeftPath :: "'a btNode \<Rightarrow> 'a btNode list \<Rightarrow> 'a btNode list" where
  "pushLeftPath NilBT st = st"
| "pushLeftPath (BTNode v l r h) st = pushLeftPath l (BTNode v l r h # st)"

definition inorderIterator_Reset :: "'a inorderIterator \<Rightarrow> 'a inorderIterator" where
  "inorderIterator_Reset iterator = iterator\<lparr>stack := pushLeftPath (root_it iterator) []\<rparr>"

definition NewInorderIterator :: "'a BinaryTree \<Rightarrow> 'a inorderIterator" where
  "NewInorderIterator tree = inorderIterator_Reset \<lparr>stack = [], root_it = root tree\<rparr>"

definition inorderIterator_Done :: "'a inorderIterator \<Rightarrow> bool" where
  "inorderIterator_Done iterator = (stack iterator = [])"

text \<open>
  \<^verbatim>\<open>Next\<close> returns \<^verbatim>\<open>(nil, false)\<close> as \<open>None\<close> and \<^verbatim>\<open>(result, true)\<close> as \<open>Some result\<close>, with
  the iterator afterwards; the outer \<open>None\<close> is the panic on a nil node.
\<close>

definition inorderIterator_Next ::
  "'a inorderIterator \<Rightarrow> ('a option \<times> 'a inorderIterator) option" where
  "inorderIterator_Next iterator =
     (case stack iterator of
        [] \<Rightarrow> Some (None, iterator)
      | node # st \<Rightarrow>
          (case node of
             NilBT \<Rightarrow> None
           | BTNode v l r h \<Rightarrow> Some (Some v, iterator\<lparr>stack := pushLeftPath r st\<rparr>)))"

fun nodes_bt :: "'a btNode \<Rightarrow> nat" where
  "nodes_bt NilBT = 0"
| "nodes_bt (BTNode v l r h) = Suc (nodes_bt l + nodes_bt r)"

fun work_bt :: "'a btNode list \<Rightarrow> nat" where
  "work_bt [] = 0"
| "work_bt (NilBT # st) = work_bt st"
| "work_bt (BTNode v l r h # st) = Suc (nodes_bt r + work_bt st)"

lemma work_pushLeftPath: "work_bt (pushLeftPath n st) = nodes_bt n + work_bt st"
  by (induction n arbitrary: st) simp_all

text \<open>The client's loop: call \<^verbatim>\<open>Next\<close> until it reports false, collecting the values.\<close>

function inorderIterator_all :: "'a inorderIterator \<Rightarrow> 'a list option" where
  "inorderIterator_all iterator =
     (case inorderIterator_Next iterator of
        None \<Rightarrow> None
      | Some (None, iterator') \<Rightarrow> Some []
      | Some (Some v, iterator') \<Rightarrow> map_option ((#) v) (inorderIterator_all iterator'))"
  by pat_completeness auto
termination
proof (relation "measure (\<lambda>it. work_bt (stack it))")
  show "wf (measure (\<lambda>it. work_bt (stack it)))" by simp
next
  fix iterator :: "'a inorderIterator" and x2 x y iterator' v
  assume "inorderIterator_Next iterator = Some x2" "(x, iterator') = x2" "x = Some v"
  then show "(iterator', iterator) \<in> measure (\<lambda>it. work_bt (stack it))"
    by (auto simp: inorderIterator_Next_def work_pushLeftPath split: list.splits btNode.splits)
qed

declare inorderIterator_all.simps [simp del]

text \<open>
  The iterator of the 2-3 tree. A 3-node on top of the stack gives \<^verbatim>\<open>value1\<close> and is replaced
  by the new 2-node \<^verbatim>\<open>newTwoThreeNode(node.value2, node.mid, node.right)\<close>; then, unless the
  node is a leaf, the left path of \<^verbatim>\<open>node.mid\<close> is pushed. A 1-node, which exists only inside
  \<^verbatim>\<open>remove\<close> and carries no value here, and a nil node on the stack give \<open>None\<close>.
\<close>

record 'a twoThreeTreeIterator =
  stack23 :: "'a twoThreeNode list"
  root23_it :: "'a twoThreeNode"

fun pushLeftPath23 :: "'a twoThreeNode \<Rightarrow> 'a twoThreeNode list \<Rightarrow> 'a twoThreeNode list" where
  "pushLeftPath23 NilTT st = st"
| "pushLeftPath23 (Node1 l) st = pushLeftPath23 l (Node1 l # st)"
| "pushLeftPath23 (Node2 l v1 m) st = pushLeftPath23 l (Node2 l v1 m # st)"
| "pushLeftPath23 (Node3 l v1 m v2 r) st = pushLeftPath23 l (Node3 l v1 m v2 r # st)"

definition twoThreeTreeIterator_Reset :: "'a twoThreeTreeIterator \<Rightarrow> 'a twoThreeTreeIterator" where
  "twoThreeTreeIterator_Reset iter =
     (if root23_it iter \<noteq> NilTT then iter\<lparr>stack23 := pushLeftPath23 (root23_it iter) []\<rparr>
      else iter\<lparr>stack23 := []\<rparr>)"

definition NewIterator :: "'a TwoThreeTree \<Rightarrow> 'a twoThreeTreeIterator" where
  "NewIterator t = twoThreeTreeIterator_Reset \<lparr>stack23 = [], root23_it = root23 t\<rparr>"

definition twoThreeTreeIterator_Done :: "'a twoThreeTreeIterator \<Rightarrow> bool" where
  "twoThreeTreeIterator_Done iter = (stack23 iter = [])"

definition twoThreeTreeIterator_Next ::
  "'a twoThreeTreeIterator \<Rightarrow> ('a option \<times> 'a twoThreeTreeIterator) option" where
  "twoThreeTreeIterator_Next iter =
     (case stack23 iter of
        [] \<Rightarrow> Some (None, iter)
      | node # st \<Rightarrow>
          (case node of
             NilTT \<Rightarrow> None
           | Node1 l \<Rightarrow> None
           | Node2 l v1 m \<Rightarrow>
               Some (Some v1, iter\<lparr>stack23 := (if l \<noteq> NilTT then pushLeftPath23 m st else st)\<rparr>)
           | Node3 l v1 m v2 r \<Rightarrow>
               (let st1 = newTwoThreeNode v2 m r # st
                in Some (Some v1,
                     iter\<lparr>stack23 := (if l \<noteq> NilTT then pushLeftPath23 m st1 else st1)\<rparr>))))"

fun nodes23 :: "'a twoThreeNode \<Rightarrow> nat" where
  "nodes23 NilTT = 0"
| "nodes23 (Node1 l) = Suc (nodes23 l)"
| "nodes23 (Node2 l v1 m) = Suc (nodes23 l + nodes23 m)"
| "nodes23 (Node3 l v1 m v2 r) = Suc (Suc (nodes23 l + nodes23 m + nodes23 r))"

fun work23 :: "'a twoThreeNode list \<Rightarrow> nat" where
  "work23 [] = 0"
| "work23 (NilTT # st) = work23 st"
| "work23 (Node1 l # st) = Suc (work23 st)"
| "work23 (Node2 l v1 m # st) = Suc (nodes23 m + work23 st)"
| "work23 (Node3 l v1 m v2 r # st) = Suc (Suc (nodes23 m + nodes23 r + work23 st))"

lemma work_pushLeftPath23: "work23 (pushLeftPath23 n st) = nodes23 n + work23 st"
  by (induction n arbitrary: st) simp_all

function twoThreeTreeIterator_all :: "'a twoThreeTreeIterator \<Rightarrow> 'a list option" where
  "twoThreeTreeIterator_all iter =
     (case twoThreeTreeIterator_Next iter of
        None \<Rightarrow> None
      | Some (None, iter') \<Rightarrow> Some []
      | Some (Some v, iter') \<Rightarrow> map_option ((#) v) (twoThreeTreeIterator_all iter'))"
  by pat_completeness auto
termination
proof (relation "measure (\<lambda>it. work23 (stack23 it))")
  show "wf (measure (\<lambda>it. work23 (stack23 it)))" by simp
next
  fix iter :: "'a twoThreeTreeIterator" and x2 x y iter' v
  assume "twoThreeTreeIterator_Next iter = Some x2" "(x, iter') = x2" "x = Some v"
  then show "(iter', iter) \<in> measure (\<lambda>it. work23 (stack23 it))"
    by (auto simp: twoThreeTreeIterator_Next_def work_pushLeftPath23 newTwoThreeNode_def Let_def
        split: list.splits twoThreeNode.splits if_splits)
qed

declare twoThreeTreeIterator_all.simps [simp del]


section \<open>BinaryTree nodes in memory (binaryTree.go)\<close>

text \<open>
  For the question which nodes a copy shares with its source, the nodes are cells of a
  memory: a \<^verbatim>\<open>*btNode\<close> is \<open>None\<close> (nil) or \<open>Some a\<close>, the address of a cell, and
  \<^verbatim>\<open>new(btNode)\<close> takes the next address, which no cell has yet. \<open>clone_m\<close>, \<open>size_m\<close>,
  \<open>LeftSubtree_m\<close> and \<open>RightSubtree_m\<close> are \<^verbatim>\<open>clone\<close>, \<^verbatim>\<open>size\<close>, \<^verbatim>\<open>LeftSubtree\<close> and
  \<^verbatim>\<open>RightSubtree\<close> on this memory; they return the tree they were called on and the memory
  afterwards, and \<open>None\<close> where a pointer has no cell or the recursion does not end.
\<close>

record 'a btNode_mem =
  value_f :: 'a
  left_f :: "nat option"
  right_f :: "nat option"
  height_f :: int

record 'a memory =
  cells :: "nat \<Rightarrow> 'a btNode_mem option"
  fresh :: nat

record BinaryTree_mem =
  count_m :: int
  root_m :: "nat option"

definition new_btNode :: "'a \<Rightarrow> 'a memory \<Rightarrow> nat \<times> 'a memory" where
  "new_btNode v s =
     (fresh s,
      s\<lparr>cells := (cells s)(fresh s \<mapsto> \<lparr>value_f = v, left_f = None, right_f = None, height_f = 0\<rparr>),
        fresh := Suc (fresh s)\<rparr>)"

definition set_left :: "nat \<Rightarrow> nat option \<Rightarrow> 'a memory \<Rightarrow> 'a memory option" where
  "set_left a p s =
     (case cells s a of
        None \<Rightarrow> None
      | Some c \<Rightarrow> Some (s\<lparr>cells := (cells s)(a \<mapsto> c\<lparr>left_f := p\<rparr>)\<rparr>))"

definition set_right :: "nat \<Rightarrow> nat option \<Rightarrow> 'a memory \<Rightarrow> 'a memory option" where
  "set_right a p s =
     (case cells s a of
        None \<Rightarrow> None
      | Some c \<Rightarrow> Some (s\<lparr>cells := (cells s)(a \<mapsto> c\<lparr>right_f := p\<rparr>)\<rparr>))"

partial_function (option) clone_m ::
  "'a memory \<Rightarrow> nat option \<Rightarrow> (nat option \<times> 'a memory) option" where
  "clone_m s node =
     (case node of
        None \<Rightarrow> Some (None, s)
      | Some a \<Rightarrow>
          (case cells s a of
             None \<Rightarrow> None
           | Some c \<Rightarrow>
               (case new_btNode (value_f c) s of
                  (result, s1) \<Rightarrow>
                    do { (l, s2) \<leftarrow> clone_m s1 (left_f c);
                         s3 \<leftarrow> set_left result l s2;
                         c' \<leftarrow> cells s3 a;
                         (r, s4) \<leftarrow> clone_m s3 (right_f c');
                         s5 \<leftarrow> set_right result r s4;
                         Some (Some result, s5) })))"

partial_function (option) size_m :: "'a memory \<Rightarrow> nat option \<Rightarrow> int option" where
  "size_m s node =
     (case node of
        None \<Rightarrow> Some 0
      | Some a \<Rightarrow>
          (case cells s a of
             None \<Rightarrow> None
           | Some c \<Rightarrow>
               do { l \<leftarrow> size_m s (left_f c);
                    r \<leftarrow> size_m s (right_f c);
                    Some (1 + l + r) }))"

definition LeftSubtree_m ::
  "'a memory \<Rightarrow> BinaryTree_mem \<Rightarrow> ((error + BinaryTree_mem) \<times> BinaryTree_mem \<times> 'a memory) option" where
  "LeftSubtree_m s tree =
     (case root_m tree of
        None \<Rightarrow> Some (Inl (EmptyTreeError ''The empty tree has no left subtree''), tree, s)
      | Some a \<Rightarrow>
          (case cells s a of
             None \<Rightarrow> None
           | Some c \<Rightarrow>
               do { n \<leftarrow> size_m s (left_f c);
                    (p, s') \<leftarrow> clone_m s (left_f c);
                    Some (Inr \<lparr>count_m = n, root_m = p\<rparr>, tree, s') }))"

definition RightSubtree_m ::
  "'a memory \<Rightarrow> BinaryTree_mem \<Rightarrow> ((error + BinaryTree_mem) \<times> BinaryTree_mem \<times> 'a memory) option" where
  "RightSubtree_m s tree =
     (case root_m tree of
        None \<Rightarrow> Some (Inl (EmptyTreeError ''The empty tree has no right subtree''), tree, s)
      | Some a \<Rightarrow>
          (case cells s a of
             None \<Rightarrow> None
           | Some c \<Rightarrow>
               do { n \<leftarrow> size_m s (right_f c);
                    (p, s') \<leftarrow> clone_m s (right_f c);
                    Some (Inr \<lparr>count_m = n, root_m = p\<rparr>, tree, s') }))"


section \<open>Sorted sequences of values\<close>

text \<open>
  What the search trees are compared with: the sequence of the stored values in key
  order. \<open>upsert\<close> puts a value at its place, replacing a value with an equal key;
  \<open>erase\<close> removes the values with an equal key; \<open>lookup\<close> finds the first value with
  an equal key.
\<close>

definition ordered :: "('k::linorder, 'p) KeyValue list \<Rightarrow> bool" where
  "ordered xs = sorted_wrt Less xs"

definition upsert :: "('k::linorder, 'p) KeyValue \<Rightarrow> ('k, 'p) KeyValue list \<Rightarrow> ('k, 'p) KeyValue list" where
  "upsert v xs = filter (\<lambda>x. Less x v) xs @ v # filter (\<lambda>x. Less v x) xs"

definition erase :: "('k::linorder, 'p) KeyValue \<Rightarrow> ('k, 'p) KeyValue list \<Rightarrow> ('k, 'p) KeyValue list" where
  "erase v xs = filter (\<lambda>x. \<not> Equal v x) xs"

definition lookup :: "('k::linorder, 'p) KeyValue \<Rightarrow> ('k, 'p) KeyValue list \<Rightarrow> ('k, 'p) KeyValue option" where
  "lookup v xs = List.find (Equal v) xs"

definition all_lt :: "('k::linorder, 'p) KeyValue list \<Rightarrow> ('k, 'p) KeyValue \<Rightarrow> bool" where
  "all_lt xs a = (\<forall>x\<in>set xs. Less x a)"

definition all_gt :: "('k::linorder, 'p) KeyValue \<Rightarrow> ('k, 'p) KeyValue list \<Rightarrow> bool" where
  "all_gt a ys = (\<forall>y\<in>set ys. Less a y)"

section \<open>Height balance\<close>

text \<open>
  \<open>hgt\<close> is the height of a subtree, computed from its shape, with -1 for the absent
  child; \<open>balanced\<close> is the AVL condition at every node; \<open>heights_stored\<close> says that every
  height field holds the height of its node.
\<close>

fun hgt :: "'a btNode \<Rightarrow> int" where
  "hgt NilBT = -1"
| "hgt (BTNode v l r h) = 1 + max (hgt l) (hgt r)"

fun balanced :: "'a btNode \<Rightarrow> bool" where
  "balanced NilBT = True"
| "balanced (BTNode v l r h) = (\<bar>hgt l - hgt r\<bar> \<le> 1 \<and> balanced l \<and> balanced r)"

fun heights_stored :: "'a btNode \<Rightarrow> bool" where
  "heights_stored NilBT = True"
| "heights_stored (BTNode v l r h) = (h = 1 + max (hgt l) (hgt r) \<and> heights_stored l \<and> heights_stored r)"

definition avl :: "'a btNode \<Rightarrow> bool" where
  "avl n = (balanced n \<and> heights_stored n)"

section \<open>Trees against sequences\<close>

text \<open>
  \<open>abstract_op\<close> is what an operation does to the sorted sequence of the stored values.
  \<open>bst_inv\<close> is the invariant of a BinarySearchTree, \<open>avl_inv\<close> the structural
  invariant of an AVLTree.
\<close>

fun abstract_op :: "('k::linorder, 'p) KeyValue operation \<Rightarrow> ('k, 'p) KeyValue list \<Rightarrow> ('k, 'p) KeyValue list" where
  "abstract_op (Add v) xs = upsert v xs"
| "abstract_op (Remove v) xs = erase v xs"
| "abstract_op ClearAll xs = []"

definition bst_inv :: "('k::linorder, 'p) KeyValue BinaryTree \<Rightarrow> bool" where
  "bst_inv t = (ordered (visitInorder (root t)) \<and> count t = int (length (visitInorder (root t))))"

definition avl_inv :: "('k::linorder, 'p) KeyValue BinaryTree \<Rightarrow> bool" where
  "avl_inv t = (avl (root t) \<and> ordered (visitInorder (root t)))"

section \<open>Perfect balance\<close>

text \<open>
  \<open>values23\<close> is the sequence of the values of a 2-3 tree in order. \<open>full h n\<close> says
  that \<open>n\<close> is a tree of 2-nodes and 3-nodes in which every path from the root to a nil
  pointer has \<open>h\<close> nodes; \<open>underflow h n\<close> that \<open>n\<close> is a 1-node over such a tree, one
  level short. \<open>leafDepths\<close> lists the depth of every leaf (a node whose \<^verbatim>\<open>left\<close> is nil, as
  \<^verbatim>\<open>isLeaf\<close> has it), and \<open>childrenMatch\<close> says that every node is a 2-node or a 3-node, a
  leaf with no child and an inner node with all the children of its type. \<open>add_ok\<close>,
  \<open>repaired\<close> and \<open>remove_ok\<close> are what \<^verbatim>\<open>add\<close>, the repairs and \<^verbatim>\<open>remove\<close> return on a full tree.
\<close>

fun values23 :: "'a twoThreeNode \<Rightarrow> 'a list" where
  "values23 NilTT = []"
| "values23 (Node1 l) = values23 l"
| "values23 (Node2 l v1 m) = values23 l @ v1 # values23 m"
| "values23 (Node3 l v1 m v2 r) = values23 l @ v1 # values23 m @ v2 # values23 r"

fun full :: "nat \<Rightarrow> 'a twoThreeNode \<Rightarrow> bool" where
  "full 0 NilTT = True"
| "full (Suc k) (Node2 l v1 m) = (full k l \<and> full k m)"
| "full (Suc k) (Node3 l v1 m v2 r) = (full k l \<and> full k m \<and> full k r)"
| "full h n = False"

fun underflow :: "nat \<Rightarrow> 'a twoThreeNode \<Rightarrow> bool" where
  "underflow (Suc k) (Node1 l) = full k l"
| "underflow h n = False"

definition add_ok ::
  "nat \<Rightarrow> ('k::linorder, 'p) KeyValue \<Rightarrow> ('k, 'p) KeyValue twoThreeNode
     \<Rightarrow> ('k, 'p) KeyValue addResult option \<Rightarrow> bool" where
  "add_ok h v n res =
     (case res of
        None \<Rightarrow> False
      | Some (Same n' a) \<Rightarrow>
          full h n' \<and> values23 n' = upsert v (values23 n) \<and> a = (lookup v (values23 n) = None)
      | Some (Split n' a) \<Rightarrow>
          (\<exists>l x m. n' = Node2 l x m \<and> full h l \<and> full h m) \<and>
          values23 n' = upsert v (values23 n) \<and> a \<and> lookup v (values23 n) = None)"

definition repaired :: "nat \<Rightarrow> 'a twoThreeNode \<Rightarrow> 'a twoThreeNode option \<Rightarrow> bool" where
  "repaired h r res =
     (case res of
        None \<Rightarrow> False
      | Some r' \<Rightarrow> values23 r' = values23 r \<and> (full h r' \<or> underflow h r'))"

definition remove_ok ::
  "nat \<Rightarrow> ('k::linorder, 'p) KeyValue \<Rightarrow> bool \<Rightarrow> ('k, 'p) KeyValue twoThreeNode
     \<Rightarrow> (('k, 'p) KeyValue twoThreeNode \<times> bool \<times> ('k, 'p) KeyValue option) option \<Rightarrow> bool" where
  "remove_ok h v target n res =
     (case res of
        None \<Rightarrow> False
      | Some (n', d, s) \<Rightarrow>
          (full h n' \<or> underflow h n') \<and>
          (if target then d \<and> (\<exists>x. s = Some x \<and> values23 n = x # values23 n')
           else s = None \<and> values23 n' = erase v (values23 n) \<and>
                d = (lookup v (values23 n) \<noteq> None)))"

definition tt_inv :: "('k::linorder, 'p) KeyValue TwoThreeTree \<Rightarrow> bool" where
  "tt_inv t = ((\<exists>h. full h (root23 t)) \<and> ordered (values23 (root23 t)) \<and>
               count23 t = int (length (values23 (root23 t))))"

fun leafDepths :: "'a twoThreeNode \<Rightarrow> nat list" where
  "leafDepths NilTT = []"
| "leafDepths (Node1 l) = (if l = NilTT then [0] else map Suc (leafDepths l))"
| "leafDepths (Node2 l v1 m) =
     (if l = NilTT then [0] else map Suc (leafDepths l @ leafDepths m))"
| "leafDepths (Node3 l v1 m v2 r) =
     (if l = NilTT then [0] else map Suc (leafDepths l @ leafDepths m @ leafDepths r))"

fun childrenMatch :: "'a twoThreeNode \<Rightarrow> bool" where
  "childrenMatch NilTT = True"
| "childrenMatch (Node1 l) = False"
| "childrenMatch (Node2 l v1 m) =
     (if l = NilTT then m = NilTT
      else m \<noteq> NilTT \<and> childrenMatch l \<and> childrenMatch m)"
| "childrenMatch (Node3 l v1 m v2 r) =
     (if l = NilTT then m = NilTT \<and> r = NilTT
      else m \<noteq> NilTT \<and> r \<noteq> NilTT \<and> childrenMatch l \<and> childrenMatch m \<and> childrenMatch r)"

text \<open>\<open>after_adds vs\<close> is the sorted sequence after adding the values \<open>vs\<close> in turn.\<close>

definition after_adds :: "('k::linorder, 'p) KeyValue list \<Rightarrow> ('k, 'p) KeyValue list" where
  "after_adds vs = foldl (\<lambda>a x. abstract_op x a) [] (map Add vs)"


section \<open>Iterators and memory against the trees\<close>

text \<open>
  \<open>pending_bt\<close> and \<open>pending23\<close> are the values an iterator with this stack still has to
  give; every node on the stack of a 2-3 tree iterator is a full subtree (\<open>stack_full\<close>).
\<close>

fun pending_bt :: "'a btNode list \<Rightarrow> 'a list" where
  "pending_bt [] = []"
| "pending_bt (NilBT # st) = pending_bt st"
| "pending_bt (BTNode v l r h # st) = v # visitInorder r @ pending_bt st"

fun pending23 :: "'a twoThreeNode list \<Rightarrow> 'a list" where
  "pending23 [] = []"
| "pending23 (Node2 l v1 m # st) = v1 # values23 m @ pending23 st"
| "pending23 (Node3 l v1 m v2 r # st) = v1 # values23 m @ v2 # values23 r @ pending23 st"
| "pending23 (n # st) = pending23 st"

definition stack_full :: "'a twoThreeNode list \<Rightarrow> bool" where
  "stack_full st = (\<forall>n\<in>set st. \<exists>k. full (Suc k) n)"

text \<open>
  \<open>holds s p n\<close>: in the memory \<open>s\<close> the pointer \<open>p\<close> is the root of the tree \<open>n\<close>;
  \<open>nodes_of s p n\<close> are the addresses of its nodes. In an \<open>allocated\<close> memory every cell
  lies below the next free address. \<open>same_tree\<close> compares values and shape, not the
  height fields, which \<^verbatim>\<open>clone\<close> leaves 0.
\<close>

fun holds :: "'a memory \<Rightarrow> nat option \<Rightarrow> 'a btNode \<Rightarrow> bool" where
  "holds s p NilBT = (p = None)"
| "holds s p (BTNode v l r h) =
     (case p of
        None \<Rightarrow> False
      | Some a \<Rightarrow>
          (case cells s a of
             None \<Rightarrow> False
           | Some c \<Rightarrow> value_f c = v \<and> height_f c = h \<and>
                        holds s (left_f c) l \<and> holds s (right_f c) r))"

fun nodes_of :: "'a memory \<Rightarrow> nat option \<Rightarrow> 'a btNode \<Rightarrow> nat set" where
  "nodes_of s p NilBT = {}"
| "nodes_of s p (BTNode v l r h) =
     (case p of
        None \<Rightarrow> {}
      | Some a \<Rightarrow>
          (case cells s a of
             None \<Rightarrow> {a}
           | Some c \<Rightarrow> {a} \<union> nodes_of s (left_f c) l \<union> nodes_of s (right_f c) r))"

definition allocated :: "'a memory \<Rightarrow> bool" where
  "allocated s = (\<forall>a. cells s a \<noteq> None \<longrightarrow> a < fresh s)"

fun same_tree :: "'a btNode \<Rightarrow> 'a btNode \<Rightarrow> bool" where
  "same_tree NilBT NilBT = True"
| "same_tree (BTNode v l r h) (BTNode v' l' r' h') = (v = v' \<and> same_tree l l' \<and> same_tree r r')"
| "same_tree _ _ = False"


section \<open>Subtree extraction on the empty and the non-empty tree\<close>

lemma size_bt_clone: "size_bt (clone n) = size_bt n"
  by (induction n) simp_all

text \<open>
  C10: on every non-empty tree LeftSubtree and RightSubtree succeed, also when the root has
  no child on that side, where the result is the empty tree of size 0; they fail exactly
  on the empty source tree.
\<close>

theorem subtree_error_iff_empty:
  "(isl (LeftSubtree tree) \<longleftrightarrow> root tree = NilBT) \<and>
   (isl (RightSubtree tree) \<longleftrightarrow> root tree = NilBT) \<and>
   (\<forall>v l r h. root tree = BTNode v l r h \<longrightarrow>
      (\<exists>t. LeftSubtree tree = Inr t \<and>
           (l = NilBT \<longrightarrow> Size t = 0 \<and> Empty t \<and> root t = NilBT)) \<and>
      (\<exists>t. RightSubtree tree = Inr t \<and>
           (r = NilBT \<longrightarrow> Size t = 0 \<and> Empty t \<and> root t = NilBT)))"
  by (simp add: LeftSubtree_def RightSubtree_def Size_def Empty_def split: btNode.splits)

theorem subtree_error_iff_empty_witness:
  "\<not> isl (LeftSubtree \<lparr>count = 2, root = BTNode (5::nat) NilBT (BTNode 7 NilBT NilBT 0) 0\<rparr>) \<and>
   (\<exists>t. LeftSubtree \<lparr>count = 2, root = BTNode (5::nat) NilBT (BTNode 7 NilBT NilBT 0) 0\<rparr> = Inr t
        \<and> Size t = 0 \<and> Empty t \<and> root t = NilBT)"
  using subtree_error_iff_empty
          [of "\<lparr>count = 2, root = BTNode (5::nat) NilBT (BTNode 7 NilBT NilBT 0) 0\<rparr>"]
  by simp


section \<open>Facts about sorted sequences\<close>

lemma ordered_Nil [simp]: "ordered []" by (simp add: ordered_def)
lemma all_lt_Nil [simp]: "all_lt [] a" by (simp add: all_lt_def)
lemma all_gt_Nil [simp]: "all_gt a []" by (simp add: all_gt_def)
lemma all_lt_Cons [simp]: "all_lt (x # xs) a = (Less x a \<and> all_lt xs a)" by (auto simp: all_lt_def)
lemma all_gt_Cons [simp]: "all_gt a (x # xs) = (Less a x \<and> all_gt a xs)" by (auto simp: all_gt_def)
lemma all_lt_append [simp]: "all_lt (xs @ ys) a = (all_lt xs a \<and> all_lt ys a)" by (auto simp: all_lt_def)
lemma all_gt_append [simp]: "all_gt a (xs @ ys) = (all_gt a xs \<and> all_gt a ys)" by (auto simp: all_gt_def)

lemma ordered_pivot:
  "ordered (xs @ a # ys) = (ordered xs \<and> ordered ys \<and> all_lt xs a \<and> all_gt a ys)"
proof -
  have "\<And>x y. all_lt xs a \<Longrightarrow> all_gt a ys \<Longrightarrow> x \<in> set xs \<Longrightarrow> y \<in> set ys \<Longrightarrow> Less x y"
    unfolding all_lt_def all_gt_def Less_def by (blast intro: less_trans)
  then show ?thesis
    unfolding ordered_def sorted_wrt_append sorted_wrt.simps
    by (auto simp: all_lt_def all_gt_def)
qed

lemma ordered_single [simp]: "ordered [a]" by (simp add: ordered_def)

lemma ordered_Cons: "ordered (a # ys) = (ordered ys \<and> all_gt a ys)"
  using ordered_pivot [of "[]" a ys] by simp

lemma keep_below: "all_lt xs a \<Longrightarrow> key a \<le> key v \<Longrightarrow> filter (\<lambda>x. Less x v) xs = xs"
  by (induction xs) (auto simp: Less_def)

lemma drop_below: "all_lt xs a \<Longrightarrow> key a \<le> key v \<Longrightarrow> filter (\<lambda>x. Less v x) xs = []"
  by (induction xs) (auto simp: Less_def)

lemma drop_above: "all_gt a ys \<Longrightarrow> key v \<le> key a \<Longrightarrow> filter (\<lambda>x. Less x v) ys = []"
  by (induction ys) (auto simp: Less_def)

lemma keep_above: "all_gt a ys \<Longrightarrow> key v \<le> key a \<Longrightarrow> filter (\<lambda>x. Less v x) ys = ys"
  by (induction ys) (auto simp: Less_def)

lemma upsert_Nil [simp]: "upsert v [] = [v]" by (simp add: upsert_def)

lemma upsert_pivot:
  assumes "all_lt xs a" and "all_gt a ys"
  shows "upsert v (xs @ a # ys) =
     (if Equal v a then xs @ v # ys
      else if Less v a then upsert v xs @ a # ys
      else xs @ a # upsert v ys)"
proof -
  consider (eq) "key v = key a" | (lt) "key v < key a" | (gt) "key a < key v"
    by (metis less_linear)
  then show ?thesis
  proof cases
    case eq
    then show ?thesis
      using keep_below [OF assms(1), of v] drop_below [OF assms(1), of v]
            drop_above [OF assms(2), of v] keep_above [OF assms(2), of v]
      by (auto simp: upsert_def Equal_def Less_def)
  next
    case lt
    then show ?thesis
      using drop_above [OF assms(2), of v] keep_above [OF assms(2), of v]
      by (auto simp: upsert_def Equal_def Less_def)
  next
    case gt
    then show ?thesis
      using keep_below [OF assms(1), of v] drop_below [OF assms(1), of v]
      by (auto simp: upsert_def Equal_def Less_def)
  qed
qed

lemma erase_Nil [simp]: "erase v [] = []" by (simp add: erase_def)

lemma erase_below: "all_lt xs a \<Longrightarrow> key a \<le> key v \<Longrightarrow> erase v xs = xs"
  by (induction xs) (auto simp: Less_def Equal_def erase_def)

lemma erase_above: "all_gt a ys \<Longrightarrow> key v \<le> key a \<Longrightarrow> erase v ys = ys"
  by (induction ys) (auto simp: Less_def Equal_def erase_def)

lemma erase_append: "erase v (xs @ ys) = erase v xs @ erase v ys"
  by (simp add: erase_def)

lemma erase_Cons: "erase v (x # xs) = (if Equal v x then erase v xs else x # erase v xs)"
  by (simp add: erase_def)

lemma erase_pivot:
  assumes "all_lt xs a" and "all_gt a ys"
  shows "erase v (xs @ a # ys) =
     (if Equal v a then xs @ ys
      else if Less v a then erase v xs @ a # ys
      else xs @ a # erase v ys)"
  using erase_below [OF assms(1), of v] erase_above [OF assms(2), of v]
  by (auto simp: erase_append erase_Cons Equal_def Less_def)

lemma lookup_Nil [simp]: "lookup v [] = None" by (simp add: lookup_def)

lemma lookup_below: "all_lt xs a \<Longrightarrow> key a \<le> key v \<Longrightarrow> lookup v xs = None"
  by (induction xs) (auto simp: Less_def Equal_def lookup_def)

lemma lookup_above: "all_gt a ys \<Longrightarrow> key v \<le> key a \<Longrightarrow> lookup v ys = None"
  by (induction ys) (auto simp: Less_def Equal_def lookup_def)

lemma lookup_append:
  "lookup v (xs @ ys) = (case lookup v xs of None \<Rightarrow> lookup v ys | Some x \<Rightarrow> Some x)"
  by (induction xs) (auto simp: lookup_def)

lemma lookup_Cons: "lookup v (x # xs) = (if Equal v x then Some x else lookup v xs)"
  by (simp add: lookup_def)

lemma lookup_pivot:
  assumes "all_lt xs a" and "all_gt a ys"
  shows "lookup v (xs @ a # ys) =
     (if Equal v a then Some a
      else if Less v a then lookup v xs
      else lookup v ys)"
  using lookup_below [OF assms(1), of v] lookup_above [OF assms(2), of v]
  by (auto simp: lookup_append lookup_Cons Equal_def Less_def split: option.splits)

lemma upsert_Cons:
  "all_gt a ys \<Longrightarrow> upsert v (a # ys) =
     (if Equal v a then v # ys else if Less v a then v # a # ys else a # upsert v ys)"
  using upsert_pivot [of "[]" a ys v] by simp

lemma erase_Cons_ordered:
  "all_gt a ys \<Longrightarrow> erase v (a # ys) =
     (if Equal v a then ys else if Less v a then a # ys else a # erase v ys)"
  using erase_pivot [of "[]" a ys v] by simp

lemma lookup_Cons_ordered:
  "all_gt a ys \<Longrightarrow> lookup v (a # ys) =
     (if Equal v a then Some a else if Less v a then None else lookup v ys)"
  using lookup_pivot [of "[]" a ys v] by simp

lemmas pivots = ordered_pivot ordered_Cons upsert_pivot upsert_Cons erase_pivot erase_Cons_ordered
  lookup_pivot lookup_Cons_ordered

lemma ordered_filter: "ordered xs \<Longrightarrow> ordered (filter P xs)"
  by (simp add: ordered_def sorted_wrt_filter)

lemma ordered_upsert: "ordered xs \<Longrightarrow> ordered (upsert v xs)"
  by (auto simp: upsert_def ordered_pivot ordered_filter all_lt_def all_gt_def)

lemma ordered_erase: "ordered xs \<Longrightarrow> ordered (erase v xs)"
  by (simp add: erase_def ordered_filter)

lemma lookup_filter_keep: "(\<And>x. Equal u x \<Longrightarrow> P x) \<Longrightarrow> lookup u (filter P xs) = lookup u xs"
  by (induction xs) (auto simp: lookup_def)

lemma lookup_filter_drop: "(\<And>x. Equal u x \<Longrightarrow> \<not> P x) \<Longrightarrow> lookup u (filter P xs) = None"
  by (induction xs) (auto simp: lookup_def)

lemma lookup_upsert: "lookup u (upsert v xs) = (if Equal u v then Some v else lookup u xs)"
proof -
  consider (eq) "key u = key v" | (lt) "key u < key v" | (gt) "key v < key u"
    by (metis less_linear)
  then show ?thesis
  proof cases
    case eq
    then have "lookup u (filter (\<lambda>x. Less x v) xs) = None"
      by (intro lookup_filter_drop) (auto simp: Equal_def Less_def)
    with eq show ?thesis
      by (simp add: upsert_def lookup_append lookup_Cons Equal_def)
  next
    case lt
    then have "lookup u (filter (\<lambda>x. Less x v) xs) = lookup u xs"
      and "lookup u (filter (\<lambda>x. Less v x) xs) = None"
      by (intro lookup_filter_keep lookup_filter_drop; auto simp: Equal_def Less_def)+
    with lt show ?thesis
      by (auto simp: upsert_def lookup_append lookup_Cons Equal_def split: option.splits)
  next
    case gt
    then have "lookup u (filter (\<lambda>x. Less x v) xs) = None"
      and "lookup u (filter (\<lambda>x. Less v x) xs) = lookup u xs"
      by (intro lookup_filter_keep lookup_filter_drop; auto simp: Equal_def Less_def)+
    with gt show ?thesis
      by (simp add: upsert_def lookup_append lookup_Cons Equal_def)
  qed
qed

lemma lookup_erase: "lookup u (erase v xs) = (if Equal u v then None else lookup u xs)"
  by (induction xs) (auto simp: erase_def lookup_def Equal_def)

lemma lookup_None_iff: "(lookup v xs = None) = (\<forall>x\<in>set xs. \<not> Equal v x)"
  by (auto simp: lookup_def find_None_iff)

lemma erase_absent: "lookup v xs = None \<Longrightarrow> erase v xs = xs"
  by (simp add: lookup_None_iff erase_def)

lemma length_upsert_fresh: "lookup v xs = None \<Longrightarrow> length (upsert v xs) = Suc (length xs)"
  by (induction xs) (auto simp: upsert_def lookup_def Equal_def Less_def split: if_splits)

lemma length_upsert:
  "ordered xs \<Longrightarrow> length (upsert v xs) = (if lookup v xs = None then Suc (length xs) else length xs)"
  by (induction xs) (auto simp: pivots split: if_splits)

lemma length_erase:
  "ordered xs \<Longrightarrow> length (erase v xs) = (if lookup v xs = None then length xs else length xs - 1)"
proof (induction xs)
  case Nil
  then show ?case by simp
next
  case (Cons a xs)
  have "all_gt a xs \<Longrightarrow> Equal v a \<Longrightarrow> lookup v xs = None"
    by (auto simp: lookup_None_iff all_gt_def Equal_def Less_def)
  with Cons show ?case
    by (cases xs) (auto simp: pivots erase_absent split: if_splits)
qed

lemma lookup_member: "ordered xs \<Longrightarrow> v \<in> set xs \<Longrightarrow> lookup v xs = Some v"
  by (induction xs) (auto simp: pivots Equal_def Less_def all_gt_def)

lemma lookup_Some_member: "lookup v xs = Some x \<Longrightarrow> x \<in> set xs \<and> Equal v x"
  unfolding lookup_def by (induction xs) (auto split: if_splits)


section \<open>BinarySearchTree: the loops against the sequence of values\<close>

lemma Add_loop_spec:
  "n \<noteq> NilBT \<Longrightarrow> ordered (visitInorder n) \<Longrightarrow>
   \<exists>n'. Add_loop v n = Some (n', lookup v (visitInorder n) = None) \<and> n' \<noteq> NilBT \<and>
        visitInorder n' = upsert v (visitInorder n)"
  by (induction n) (auto simp: pivots newBTNode_def)

lemma Get_loop_spec:
  "ordered (visitInorder n) \<Longrightarrow> Get_loop v n = lookup v (visitInorder n)"
  by (induction n) (auto simp: pivots)

lemma detachSuccessor_spec:
  "n \<noteq> NilBT \<Longrightarrow> \<exists>s n'. detachSuccessor n = Some (s, n') \<and> visitInorder n = s # visitInorder n'"
  by (induction n) auto

lemma Remove_loop_spec:
  "ordered (visitInorder n) \<Longrightarrow>
   \<exists>n'. Remove_loop v n = Some (n', lookup v (visitInorder n) \<noteq> None) \<and>
        visitInorder n' = erase v (visitInorder n)"
proof (induction n)
  case NilBT
  then show ?case by simp
next
  case (BTNode x l r h)
  show ?case
  proof (cases "Equal v x")
    case True
    show ?thesis
    proof (cases "l \<noteq> NilBT \<and> r \<noteq> NilBT")
      case True
      then obtain s r' where "detachSuccessor r = Some (s, r')" "visitInorder r = s # visitInorder r'"
        using detachSuccessor_spec [of r] by blast
      with \<open>Equal v x\<close> BTNode.prems True show ?thesis
        by (auto simp: pivots)
    next
      case False
      with \<open>Equal v x\<close> BTNode.prems show ?thesis
        by (auto simp: pivots)
    qed
  next
    case False
    with BTNode show ?thesis
      by (auto simp: pivots)
  qed
qed



section \<open>AVLTree: rotations and rebalancing\<close>

lemma hgt_ge: "- 1 \<le> hgt n"
  by (induction n) auto

lemma hgt_Nil_iff: "(hgt n = - 1) = (n = NilBT)"
proof (cases n)
  case (BTNode v l r h)
  with hgt_ge [of l] hgt_ge [of r] show ?thesis by (auto simp: max_def)
qed simp

lemma storedHeight_hgt: "heights_stored n \<Longrightarrow> storedHeight n = hgt n"
  by (cases n) auto

lemma avl_simps [simp]:
  "avl NilBT"
  "avl (BTNode v l r h) = (avl l \<and> avl r \<and> \<bar>hgt l - hgt r\<bar> \<le> 1 \<and> h = 1 + max (hgt l) (hgt r))"
  by (auto simp: avl_def)

lemma avl_stored: "avl n \<Longrightarrow> storedHeight n = hgt n"
  by (simp add: avl_def storedHeight_hgt)

lemma setHeight_node:
  "setHeight (BTNode v l r h) = Some (BTNode v l r (1 + max (storedHeight l) (storedHeight r)))"
  by (simp add: Let_def max_def)

lemma newAVLNode_node:
  "newAVLNode v l r = Some (BTNode v l r (1 + max (storedHeight l) (storedHeight r)))"
  by (simp add: newAVLNode_def newBTNode_def setHeight_node del: setHeight.simps)

declare setHeight.simps [simp del]

lemma rebalance_spec:
  assumes "avl l" "avl r" "\<bar>hgt l - hgt r\<bar> \<le> 2"
  shows "\<exists>n. rebalance (BTNode v l r h) = Some n \<and> avl n \<and> n \<noteq> NilBT \<and>
             visitInorder n = visitInorder l @ v # visitInorder r \<and>
             (if \<bar>hgt l - hgt r\<bar> \<le> 1 then hgt n = 1 + max (hgt l) (hgt r)
              else hgt n = max (hgt l) (hgt r) \<or> hgt n = 1 + max (hgt l) (hgt r))"
proof -
  consider (ok) "\<bar>hgt l - hgt r\<bar> \<le> 1" | (left) "hgt l = hgt r + 2" | (right) "hgt r = hgt l + 2"
    using assms(3) by linarith
  then show ?thesis
  proof cases
    case ok
    with assms show ?thesis
      by (auto simp: avl_stored setHeight_node)
  next
    case left
    with hgt_ge [of r] obtain lv ll lr lh where l: "l = BTNode lv ll lr lh"
      by (cases l) auto
    show ?thesis
    proof (cases "hgt ll - hgt lr = - 1")
      case True
      with hgt_ge [of ll] obtain lrv lrl lrr lrh where lr: "lr = BTNode lrv lrl lrr lrh"
        by (cases lr) auto
      from assms left l lr True show ?thesis
        by (auto simp: avl_stored setHeight_node newAVLNode_node max_def split: if_splits)
    next
      case False
      from assms left l False show ?thesis
        by (auto simp: avl_stored setHeight_node newAVLNode_node max_def split: if_splits)
    qed
  next
    case right
    with hgt_ge [of l] obtain rv rl rr rh where r: "r = BTNode rv rl rr rh"
      by (cases r) auto
    show ?thesis
    proof (cases "hgt rl - hgt rr = 1")
      case True
      with hgt_ge [of rr] obtain rlv rll rlr rlh where rl: "rl = BTNode rlv rll rlr rlh"
        by (cases rl) auto
      from assms right r rl True show ?thesis
        by (auto simp: avl_stored setHeight_node newAVLNode_node max_def split: if_splits)
    next
      case False
      from assms right r False show ?thesis
        by (auto simp: avl_stored setHeight_node newAVLNode_node max_def split: if_splits)
    qed
  qed
qed


declare rebalance.simps [simp del]

lemma rebalance_after:
  assumes "avl l" "avl r" "\<bar>hgt l - hgt r\<bar> \<le> 2"
  obtains n where "rebalance (BTNode v l r h) = Some n" "avl n" "n \<noteq> NilBT"
    "visitInorder n = visitInorder l @ v # visitInorder r"
    "\<bar>hgt l - hgt r\<bar> \<le> 1 \<Longrightarrow> hgt n = 1 + max (hgt l) (hgt r)"
    "hgt n = max (hgt l) (hgt r) \<or> hgt n = 1 + max (hgt l) (hgt r)"
  using rebalance_spec [OF assms, of v h] by (auto split: if_splits)

lemma btNode_add_spec:
  "avl n \<Longrightarrow> n \<noteq> NilBT \<Longrightarrow> ordered (visitInorder n) \<Longrightarrow>
   \<exists>n'. btNode_add v n = Some n' \<and> avl n' \<and> n' \<noteq> NilBT \<and>
        visitInorder n' = upsert v (visitInorder n) \<and>
        (hgt n' = hgt n \<or> hgt n' = hgt n + 1)"
proof (induction n)
  case NilBT
  then show ?case by simp
next
  case (BTNode x l r h)
  from BTNode.prems have al: "avl l" and ar: "avl r" and bal: "\<bar>hgt l - hgt r\<bar> \<le> 1"
    and h: "h = 1 + max (hgt l) (hgt r)"
    and ol: "ordered (visitInorder l)" and or: "ordered (visitInorder r)"
    and lo: "all_lt (visitInorder l) x" and hi: "all_gt x (visitInorder r)"
    by (auto simp: pivots)
  consider (eq) "Equal v x" | (lt) "\<not> Equal v x" "Less v x" | (gt) "\<not> Equal v x" "\<not> Less v x"
    by blast
  then show ?case
  proof cases
    case eq
    with BTNode.prems show ?thesis by (auto simp: pivots)
  next
    case lt
    show ?thesis
    proof (cases "l = NilBT")
      case True
      with lt BTNode.prems hgt_ge [of r] show ?thesis
        by (auto simp: pivots newAVLNode_node setHeight_node avl_stored max_def)
    next
      case False
      with BTNode.IH(1) al ol obtain l' where l': "btNode_add v l = Some l'" "avl l'" "l' \<noteq> NilBT"
        "visitInorder l' = upsert v (visitInorder l)" "hgt l' = hgt l \<or> hgt l' = hgt l + 1"
        by blast
      from l'(5) bal have "\<bar>hgt l' - hgt r\<bar> \<le> 2" by linarith
      from rebalance_after [OF l'(2) ar this, of x h] obtain n where
        n: "rebalance (BTNode x l' r h) = Some n" "avl n" "n \<noteq> NilBT"
        "visitInorder n = visitInorder l' @ x # visitInorder r"
        "\<bar>hgt l' - hgt r\<bar> \<le> 1 \<Longrightarrow> hgt n = 1 + max (hgt l') (hgt r)"
        "hgt n = max (hgt l') (hgt r) \<or> hgt n = 1 + max (hgt l') (hgt r)"
        by blast
      have "hgt n = hgt (BTNode x l r h) \<or> hgt n = hgt (BTNode x l r h) + 1"
        using n(5,6) l'(5) bal by (cases "\<bar>hgt l' - hgt r\<bar> \<le> 1") (auto simp: max_def)
      with lt False l' n lo hi show ?thesis
        by (simp add: pivots)
    qed
  next
    case gt
    show ?thesis
    proof (cases "r = NilBT")
      case True
      with gt BTNode.prems hgt_ge [of l] show ?thesis
        by (auto simp: pivots newAVLNode_node setHeight_node avl_stored max_def)
    next
      case False
      with BTNode.IH(2) ar or obtain r' where r': "btNode_add v r = Some r'" "avl r'" "r' \<noteq> NilBT"
        "visitInorder r' = upsert v (visitInorder r)" "hgt r' = hgt r \<or> hgt r' = hgt r + 1"
        by blast
      from r'(5) bal have "\<bar>hgt l - hgt r'\<bar> \<le> 2" by linarith
      from rebalance_after [OF al r'(2) this, of x h] obtain n where
        n: "rebalance (BTNode x l r' h) = Some n" "avl n" "n \<noteq> NilBT"
        "visitInorder n = visitInorder l @ x # visitInorder r'"
        "\<bar>hgt l - hgt r'\<bar> \<le> 1 \<Longrightarrow> hgt n = 1 + max (hgt l) (hgt r')"
        "hgt n = max (hgt l) (hgt r') \<or> hgt n = 1 + max (hgt l) (hgt r')"
        by blast
      have "hgt n = hgt (BTNode x l r h) \<or> hgt n = hgt (BTNode x l r h) + 1"
        using n(5,6) r'(5) bal by (cases "\<bar>hgt l - hgt r'\<bar> \<le> 1") (auto simp: max_def)
      with gt False r' n lo hi show ?thesis
        by (simp add: pivots)
    qed
  qed
qed


lemma removeSuccessor_spec:
  "avl n \<Longrightarrow> n \<noteq> NilBT \<Longrightarrow>
   \<exists>s n'. removeSuccessor n = Some (s, n') \<and> avl n' \<and> visitInorder n = s # visitInorder n' \<and>
        (hgt n' = hgt n \<or> hgt n' = hgt n - 1)"
proof (induction n)
  case NilBT
  then show ?case by simp
next
  case (BTNode x l r h)
  from BTNode.prems have al: "avl l" and ar: "avl r" and bal: "\<bar>hgt l - hgt r\<bar> \<le> 1"
    by auto
  show ?case
  proof (cases "l = NilBT")
    case True
    with BTNode.prems hgt_ge [of r] show ?thesis by (auto simp: max_def)
  next
    case False
    with BTNode.IH(1) al obtain s l' where l': "removeSuccessor l = Some (s, l')" "avl l'"
      "visitInorder l = s # visitInorder l'" "hgt l' = hgt l \<or> hgt l' = hgt l - 1"
      by blast
    from l'(4) bal have "\<bar>hgt l' - hgt r\<bar> \<le> 2" by linarith
    from rebalance_after [OF l'(2) ar this, of x h] obtain n where
      n: "rebalance (BTNode x l' r h) = Some n" "avl n" "n \<noteq> NilBT"
      "visitInorder n = visitInorder l' @ x # visitInorder r"
      "\<bar>hgt l' - hgt r\<bar> \<le> 1 \<Longrightarrow> hgt n = 1 + max (hgt l') (hgt r)"
      "hgt n = max (hgt l') (hgt r) \<or> hgt n = 1 + max (hgt l') (hgt r)"
      by blast
    have "hgt n = hgt (BTNode x l r h) \<or> hgt n = hgt (BTNode x l r h) - 1"
      using n(5,6) l'(4) bal by (cases "\<bar>hgt l' - hgt r\<bar> \<le> 1") (auto simp: max_def)
    with False l' n show ?thesis by simp
  qed
qed

lemma btNode_remove_spec:
  "avl n \<Longrightarrow> n \<noteq> NilBT \<Longrightarrow> ordered (visitInorder n) \<Longrightarrow>
   \<exists>n'. btNode_remove v n = Some n' \<and> avl n' \<and>
        visitInorder n' = erase v (visitInorder n) \<and>
        (hgt n' = hgt n \<or> hgt n' = hgt n - 1)"
proof (induction n)
  case NilBT
  then show ?case by simp
next
  case (BTNode x l r h)
  from BTNode.prems have al: "avl l" and ar: "avl r" and bal: "\<bar>hgt l - hgt r\<bar> \<le> 1"
    and h: "h = 1 + max (hgt l) (hgt r)"
    and ol: "ordered (visitInorder l)" and or: "ordered (visitInorder r)"
    and lo: "all_lt (visitInorder l) x" and hi: "all_gt x (visitInorder r)"
    by (auto simp: pivots)
  consider (eq) "Equal v x" | (lt) "\<not> Equal v x" "Less v x" | (gt) "\<not> Equal v x" "\<not> Less v x"
    by blast
  then show ?case
  proof cases
    case eq
    show ?thesis
    proof (cases "l = NilBT \<or> r = NilBT")
      case True
      with eq BTNode.prems hgt_ge [of l] hgt_ge [of r] show ?thesis
        by (auto simp: pivots max_def)
    next
      case False
      with removeSuccessor_spec [OF ar] obtain s r' where r': "removeSuccessor r = Some (s, r')"
        "avl r'" "visitInorder r = s # visitInorder r'" "hgt r' = hgt r \<or> hgt r' = hgt r - 1"
        by blast
      from r'(4) bal have "\<bar>hgt l - hgt r'\<bar> \<le> 2" by linarith
      from rebalance_after [OF al r'(2) this, of s h] obtain n where
        n: "rebalance (BTNode s l r' h) = Some n" "avl n" "n \<noteq> NilBT"
        "visitInorder n = visitInorder l @ s # visitInorder r'"
        "\<bar>hgt l - hgt r'\<bar> \<le> 1 \<Longrightarrow> hgt n = 1 + max (hgt l) (hgt r')"
        "hgt n = max (hgt l) (hgt r') \<or> hgt n = 1 + max (hgt l) (hgt r')"
        by blast
      have "hgt n = hgt (BTNode x l r h) \<or> hgt n = hgt (BTNode x l r h) - 1"
        using n(5,6) r'(4) bal by (cases "\<bar>hgt l - hgt r'\<bar> \<le> 1") (auto simp: max_def)
      with eq False r' n lo hi show ?thesis
        by (simp add: pivots)
    qed
  next
    case lt
    show ?thesis
    proof (cases "l = NilBT")
      case True
      with lt BTNode.prems show ?thesis
        by (auto simp: pivots)
    next
      case False
      with BTNode.IH(1) al ol obtain l' where l': "btNode_remove v l = Some l'" "avl l'"
        "visitInorder l' = erase v (visitInorder l)" "hgt l' = hgt l \<or> hgt l' = hgt l - 1"
        by blast
      from l'(4) bal have "\<bar>hgt l' - hgt r\<bar> \<le> 2" by linarith
      from rebalance_after [OF l'(2) ar this, of x h] obtain n where
        n: "rebalance (BTNode x l' r h) = Some n" "avl n" "n \<noteq> NilBT"
        "visitInorder n = visitInorder l' @ x # visitInorder r"
        "\<bar>hgt l' - hgt r\<bar> \<le> 1 \<Longrightarrow> hgt n = 1 + max (hgt l') (hgt r)"
        "hgt n = max (hgt l') (hgt r) \<or> hgt n = 1 + max (hgt l') (hgt r)"
        by blast
      have "hgt n = hgt (BTNode x l r h) \<or> hgt n = hgt (BTNode x l r h) - 1"
        using n(5,6) l'(4) bal by (cases "\<bar>hgt l' - hgt r\<bar> \<le> 1") (auto simp: max_def)
      with lt False l' n lo hi show ?thesis
        by (simp add: pivots)
    qed
  next
    case gt
    show ?thesis
    proof (cases "r = NilBT")
      case True
      with gt BTNode.prems show ?thesis
        by (auto simp: pivots)
    next
      case False
      with BTNode.IH(2) ar or obtain r' where r': "btNode_remove v r = Some r'" "avl r'"
        "visitInorder r' = erase v (visitInorder r)" "hgt r' = hgt r \<or> hgt r' = hgt r - 1"
        by blast
      from r'(4) bal have "\<bar>hgt l - hgt r'\<bar> \<le> 2" by linarith
      from rebalance_after [OF al r'(2) this, of x h] obtain n where
        n: "rebalance (BTNode x l r' h) = Some n" "avl n" "n \<noteq> NilBT"
        "visitInorder n = visitInorder l @ x # visitInorder r'"
        "\<bar>hgt l - hgt r'\<bar> \<le> 1 \<Longrightarrow> hgt n = 1 + max (hgt l) (hgt r')"
        "hgt n = max (hgt l) (hgt r') \<or> hgt n = 1 + max (hgt l) (hgt r')"
        by blast
      have "hgt n = hgt (BTNode x l r h) \<or> hgt n = hgt (BTNode x l r h) - 1"
        using n(5,6) r'(4) bal by (cases "\<bar>hgt l - hgt r'\<bar> \<le> 1") (auto simp: max_def)
      with gt False r' n lo hi show ?thesis
        by (simp add: pivots)
    qed
  qed
qed



section \<open>Runs of operations on BinarySearchTree and AVLTree\<close>

lemma run_steps:
  assumes "\<And>x t. I t \<Longrightarrow> \<exists>t'. step x t = Some t' \<and> I t' \<and> \<alpha> t' = aop x (\<alpha> t)"
  shows "I t \<Longrightarrow> \<exists>t'. run step xs t = Some t' \<and> I t' \<and> \<alpha> t' = foldl (\<lambda>a x. aop x a) (\<alpha> t) xs"
proof (induction xs arbitrary: t)
  case Nil
  then show ?case by simp
next
  case (Cons x xs)
  from assms [OF Cons.prems, of x] obtain t1 where
    t1: "step x t = Some t1" "I t1" "\<alpha> t1 = aop x (\<alpha> t)" by blast
  from Cons.IH [OF t1(2)] t1 show ?case by simp
qed

lemma ordered_abstract_op: "ordered xs \<Longrightarrow> ordered (abstract_op x xs)"
  by (cases x) (simp_all add: ordered_upsert ordered_erase)

lemma length_abstract_op:
  assumes "ordered xs"
  shows "int (length (abstract_op x xs)) =
     (case x of Add v \<Rightarrow> (if lookup v xs = None then int (length xs) + 1 else int (length xs))
              | Remove v \<Rightarrow> (if lookup v xs = None then int (length xs) else int (length xs) - 1)
              | ClearAll \<Rightarrow> 0)"
proof (cases x)
  case (Remove v)
  have "lookup v xs \<noteq> None \<Longrightarrow> xs \<noteq> []" by auto
  then have "lookup v xs \<noteq> None \<Longrightarrow> int (length xs - 1) = int (length xs) - 1"
    by (cases xs) auto
  with Remove assms show ?thesis by (auto simp: length_erase)
qed (simp_all add: length_upsert assms)

lemma VisitInorder_root: "VisitInorder t = visitInorder (root t)"
  by (simp add: VisitInorder_def)

lemma BinarySearchTree_Add_spec:
  assumes "bst_inv t"
  shows "\<exists>t'. BinarySearchTree_Add v t = Some t' \<and> bst_inv t' \<and>
              visitInorder (root t') = upsert v (visitInorder (root t))"
proof (cases "root t = NilBT")
  case True
  with assms show ?thesis
    by (simp add: BinarySearchTree_Add_def bst_inv_def)
next
  case False
  from assms have o: "ordered (visitInorder (root t))" by (simp add: bst_inv_def)
  from Add_loop_spec [OF False o, of v] obtain n' where
    "Add_loop v (root t) = Some (n', lookup v (visitInorder (root t)) = None)"
    "visitInorder n' = upsert v (visitInorder (root t))" by blast
  with False assms show ?thesis
    by (simp add: BinarySearchTree_Add_def bst_inv_def ordered_upsert length_upsert)
qed

lemma BinarySearchTree_Remove_spec:
  assumes "bst_inv t"
  shows "\<exists>t'. BinarySearchTree_Remove v t = Some t' \<and> bst_inv t' \<and>
              visitInorder (root t') = erase v (visitInorder (root t))"
proof -
  from assms have o: "ordered (visitInorder (root t))" by (simp add: bst_inv_def)
  from Remove_loop_spec [OF o, of v] obtain n' where
    "Remove_loop v (root t) = Some (n', lookup v (visitInorder (root t)) \<noteq> None)"
    "visitInorder n' = erase v (visitInorder (root t))" by blast
  with assms length_abstract_op [OF o, of "Remove v"] show ?thesis
    by (auto simp: BinarySearchTree_Remove_def bst_inv_def ordered_erase)
qed

lemma BinarySearchTree_apply_spec:
  "bst_inv t \<Longrightarrow> \<exists>t'. BinarySearchTree_apply x t = Some t' \<and> bst_inv t' \<and>
      visitInorder (root t') = abstract_op x (visitInorder (root t))"
  by (cases x) (simp_all add: BinarySearchTree_Add_spec BinarySearchTree_Remove_spec,
      simp add: Clear_def bst_inv_def)

lemma bst_inv_empty: "bst_inv emptyTree"
  by (simp add: bst_inv_def emptyTree_def)

lemma BinarySearchTree_run_spec:
  "\<exists>t. run BinarySearchTree_apply xs emptyTree = Some t \<and> bst_inv t \<and>
       visitInorder (root t) = foldl (\<lambda>a x. abstract_op x a) [] xs"
proof -
  from run_steps [where step = BinarySearchTree_apply and I = bst_inv
      and \<alpha> = "\<lambda>t. visitInorder (root t)" and aop = abstract_op,
      OF BinarySearchTree_apply_spec bst_inv_empty]
  show ?thesis by (simp add: emptyTree_def)
qed


lemma Contains_loop_spec:
  "ordered (visitInorder n) \<Longrightarrow> Contains_loop e n = (lookup e (visitInorder n) \<noteq> None)"
  by (induction n) (auto simp: pivots)

lemma contains_set: "contains n e = (e \<in> set (visitInorder n))"
  by (induction n) auto

lemma lookup_key_only: "Equal e s \<Longrightarrow> lookup e xs = lookup s xs"
  by (induction xs) (auto simp: lookup_def Equal_def)

lemma equal_key_other_payload:
  assumes "ordered xs" "s \<in> set xs" "Equal e s" "e \<noteq> s"
  shows "e \<notin> set xs \<and> lookup e xs = Some s"
proof -
  from assms(1,2) have "lookup s xs = Some s" by (rule lookup_member)
  with assms(3) have l: "lookup e xs = Some s" by (simp add: lookup_key_only)
  have "e \<notin> set xs"
  proof
    assume "e \<in> set xs"
    with assms(1) have "lookup e xs = Some e" by (rule lookup_member)
    with l assms(4) show False by simp
  qed
  with l show ?thesis by simp
qed

lemma avl_inv_empty: "avl_inv emptyTree"
  by (simp add: avl_inv_def emptyTree_def)

lemma AVLTree_Add_spec:
  assumes "avl_inv t"
  shows "\<exists>t'. AVLTree_Add v t = Some t' \<and> avl_inv t' \<and>
              visitInorder (root t') = upsert v (visitInorder (root t)) \<and>
              count t' = (if root t = NilBT then 1
                          else if contains (root t) v then count t else count t + 1)"
proof (cases "root t = NilBT")
  case True
  then show ?thesis
    by (simp add: AVLTree_Add_def avl_inv_def newAVLNode_node)
next
  case False
  from assms have "avl (root t)" "ordered (visitInorder (root t))" by (simp_all add: avl_inv_def)
  from btNode_add_spec [OF this(1) False this(2), of v] obtain n' where
    "btNode_add v (root t) = Some n'" "avl n'"
    "visitInorder n' = upsert v (visitInorder (root t))" by blast
  with False assms show ?thesis
    by (simp add: AVLTree_Add_def avl_inv_def ordered_upsert)
qed

lemma AVLTree_Remove_spec:
  assumes "avl_inv t"
  shows "\<exists>t'. AVLTree_Remove v t = Some t' \<and> avl_inv t' \<and>
              visitInorder (root t') = erase v (visitInorder (root t)) \<and>
              count t' = (if lookup v (visitInorder (root t)) = None then count t else count t - 1)"
proof (cases "lookup v (visitInorder (root t)) = None")
  case True
  with assms show ?thesis
    by (simp add: AVLTree_Remove_def avl_inv_def BinarySearchTree_Contains_def
        Contains_loop_spec erase_absent)
next
  case False
  from assms have a: "avl (root t)" and o: "ordered (visitInorder (root t))"
    by (simp_all add: avl_inv_def)
  from False have "root t \<noteq> NilBT" by auto
  from btNode_remove_spec [OF a this o, of v] obtain n' where
    "btNode_remove v (root t) = Some n'" "avl n'"
    "visitInorder n' = erase v (visitInorder (root t))" by blast
  with False o show ?thesis
    by (simp add: AVLTree_Remove_def avl_inv_def BinarySearchTree_Contains_def
        Contains_loop_spec ordered_erase)
qed

lemma AVLTree_apply_spec:
  "avl_inv t \<Longrightarrow> \<exists>t'. AVLTree_apply x t = Some t' \<and> avl_inv t' \<and>
      visitInorder (root t') = abstract_op x (visitInorder (root t))"
proof (cases x)
  case (Add v)
  assume "avl_inv t"
  from AVLTree_Add_spec [OF this, of v] Add show ?thesis by auto
next
  case (Remove v)
  assume "avl_inv t"
  from AVLTree_Remove_spec [OF this, of v] Remove show ?thesis by auto
next
  case ClearAll
  then show ?thesis by (simp add: Clear_def avl_inv_def)
qed

lemma AVLTree_run_spec:
  "\<exists>t. run AVLTree_apply xs emptyTree = Some t \<and> avl_inv t \<and>
       visitInorder (root t) = foldl (\<lambda>a x. abstract_op x a) [] xs"
proof -
  from run_steps [where step = AVLTree_apply and I = avl_inv
      and \<alpha> = "\<lambda>t. visitInorder (root t)" and aop = abstract_op,
      OF AVLTree_apply_spec avl_inv_empty]
  show ?thesis by (simp add: emptyTree_def)
qed

text \<open>
  C1: after any sequence of Add and Remove (and Clear) on an empty AVLTree, no operation
  panics and every node of the tree has subtrees whose heights differ by at most 1, the
  absent child counting as height -1.
\<close>

theorem AVLTree_stays_balanced:
  "\<exists>t. run AVLTree_apply ops emptyTree = Some t \<and> balanced (root t)"
  using AVLTree_run_spec [of ops] by (auto simp: avl_inv_def avl_def)

theorem AVLTree_stays_balanced_witness:
  "\<exists>t. run AVLTree_apply
          [Add (KeyValue (3::int) ''c''), Add (KeyValue 2 ''b''), Add (KeyValue 1 ''a''),
           Remove (KeyValue 3 ''''), Add (KeyValue 0 ''z'')] emptyTree = Some t
       \<and> balanced (root t)"
  by (rule AVLTree_stays_balanced)



section \<open>TwoThreeTree: splitting, repairing and the sequence of values\<close>

lemma full_0 [simp]: "full 0 n = (n = NilTT)"
  by (cases n) auto

lemma full_Suc_not_Nil: "full (Suc k) n \<Longrightarrow> n \<noteq> NilTT"
  by auto

lemma full_Node2 [simp]: "full h (Node2 l v1 m) = (\<exists>k. h = Suc k \<and> full k l \<and> full k m)"
  by (cases h) auto

lemma full_Node3 [simp]:
  "full h (Node3 l v1 m v2 r) = (\<exists>k. h = Suc k \<and> full k l \<and> full k m \<and> full k r)"
  by (cases h) auto

lemma full_Node1 [simp]: "full h (Node1 l) = False"
  by (cases h) auto

lemma Less_not_Equal [simp]: "Less v a \<Longrightarrow> \<not> Equal v a"
  by (simp add: Less_def Equal_def)

lemma visit_full: "full (Suc k) n \<Longrightarrow> twoThreeNode_visitInorder n = Some (values23 n)"
proof (induction n arbitrary: k)
  case (Node2 l v1 m)
  then show ?case by (cases k) auto
next
  case (Node3 l v1 m v2 r)
  then show ?case by (cases k) auto
qed simp_all

lemma get_full:
  "full (Suc k) n \<Longrightarrow> ordered (values23 n) \<Longrightarrow>
   twoThreeNode_get v n = Some (lookup v (values23 n))"
proof (induction n arbitrary: k)
  case (Node2 l v1 m)
  then show ?case by (cases k) (auto simp: pivots)
next
  case (Node3 l v1 m v2 r)
  then show ?case by (cases k) (auto simp: pivots)
qed simp_all

lemma add_full:
  "full (Suc k) n \<Longrightarrow> ordered (values23 n) \<Longrightarrow> add_ok (Suc k) v n (twoThreeNode_add v n)"
proof (induction n arbitrary: k)
  case (Node2 l v1 m)
  show ?case
  proof (cases k)
    case 0
    with Node2.prems show ?thesis
      by (auto simp: add_ok_def pivots)
  next
    case (Suc j)
    with Node2.prems have "add_ok (Suc j) v l (twoThreeNode_add v l)"
      "add_ok (Suc j) v m (twoThreeNode_add v m)"
      by (auto intro!: Node2.IH simp: pivots)
    with Suc Node2.prems show ?thesis
      by (auto simp: add_ok_def pivots split: option.splits addResult.splits)
  qed
next
  case (Node3 l v1 m v2 r)
  show ?case
  proof (cases k)
    case 0
    with Node3.prems show ?thesis
      by (auto simp: add_ok_def pivots newTwoThreeNode_def)
  next
    case (Suc j)
    with Node3.prems have "add_ok (Suc j) v l (twoThreeNode_add v l)"
      "add_ok (Suc j) v m (twoThreeNode_add v m)" "add_ok (Suc j) v r (twoThreeNode_add v r)"
      by (auto intro!: Node3.IH simp: pivots)
    with Suc Node3.prems show ?thesis
      by (auto simp: add_ok_def pivots newTwoThreeNode_def split: option.splits addResult.splits)
  qed
qed simp_all

lemma underflowE:
  assumes "underflow h n"
  obtains k a where "h = Suc k" "n = Node1 a" "full k a"
  using assms by (cases "(h, n)" rule: underflow.cases) auto

lemma full_SucE:
  assumes "full (Suc k) n"
  obtains (two) l v1 m where "n = Node2 l v1 m" "full k l" "full k m"
        | (three) l v1 m v2 r where "n = Node3 l v1 m v2 r" "full k l" "full k m" "full k r"
  using assms by (cases n) auto

lemmas fix_defs = fixChildren_def fixLeft_def fixMid_def fixRight_def repaired_def

lemma fix2_none:
  "full (Suc j) l \<Longrightarrow> full (Suc j) m \<Longrightarrow> repaired (Suc (Suc j)) (Node2 l v m) (fixChildren (Node2 l v m))"
  by (erule full_SucE; erule full_SucE) (auto simp: fix_defs)

lemma fix2_left:
  "underflow (Suc j) l \<Longrightarrow> full (Suc j) m \<Longrightarrow> repaired (Suc (Suc j)) (Node2 l v m) (fixChildren (Node2 l v m))"
  by (erule underflowE; erule full_SucE) (auto simp: fix_defs)

lemma fix2_mid:
  "full (Suc j) l \<Longrightarrow> underflow (Suc j) m \<Longrightarrow> repaired (Suc (Suc j)) (Node2 l v m) (fixChildren (Node2 l v m))"
  by (erule underflowE; erule full_SucE) (auto simp: fix_defs)

lemma fix3_none:
  "full (Suc j) l \<Longrightarrow> full (Suc j) m \<Longrightarrow> full (Suc j) r \<Longrightarrow>
   repaired (Suc (Suc j)) (Node3 l v m w r) (fixChildren (Node3 l v m w r))"
  by (erule full_SucE; erule full_SucE; erule full_SucE) (auto simp: fix_defs)

lemma fix3_left:
  "underflow (Suc j) l \<Longrightarrow> full (Suc j) m \<Longrightarrow> full (Suc j) r \<Longrightarrow>
   repaired (Suc (Suc j)) (Node3 l v m w r) (fixChildren (Node3 l v m w r))"
  by (erule underflowE; erule full_SucE; erule full_SucE) (auto simp: fix_defs)

lemma fix3_mid:
  "full (Suc j) l \<Longrightarrow> underflow (Suc j) m \<Longrightarrow> full (Suc j) r \<Longrightarrow>
   repaired (Suc (Suc j)) (Node3 l v m w r) (fixChildren (Node3 l v m w r))"
  by (erule underflowE; erule full_SucE; erule full_SucE) (auto simp: fix_defs)

lemma fix3_right:
  "full (Suc j) l \<Longrightarrow> full (Suc j) m \<Longrightarrow> underflow (Suc j) r \<Longrightarrow>
   repaired (Suc (Suc j)) (Node3 l v m w r) (fixChildren (Node3 l v m w r))"
  by (erule underflowE; erule full_SucE; erule full_SucE) (auto simp: fix_defs)

lemma repairedE:
  assumes "repaired h r res"
  obtains r' where "res = Some r'" "values23 r' = values23 r" "full h r' \<or> underflow h r'"
  using assms by (auto simp: repaired_def split: option.splits)

lemma remove_okE:
  assumes "remove_ok h v target n res"
  obtains n' d s where "res = Some (n', d, s)" "full h n' \<or> underflow h n'"
    "target \<Longrightarrow> d \<and> (\<exists>x. s = Some x \<and> values23 n = x # values23 n')"
    "\<not> target \<Longrightarrow> s = None \<and> values23 n' = erase v (values23 n) \<and> d = (lookup v (values23 n) \<noteq> None)"
  using assms by (auto simp: remove_ok_def split: option.splits if_splits)

lemma fix2:
  assumes "full (Suc j) l \<or> underflow (Suc j) l" "full (Suc j) m \<or> underflow (Suc j) m"
    "full (Suc j) l \<or> full (Suc j) m"
  shows "repaired (Suc (Suc j)) (Node2 l v m) (fixChildren (Node2 l v m))"
  using assms by (elim disjE conjE; simp add: fix2_none fix2_left fix2_mid)

lemma fix3:
  assumes "full (Suc j) l \<or> underflow (Suc j) l" "full (Suc j) m \<or> underflow (Suc j) m"
    "full (Suc j) r \<or> underflow (Suc j) r"
    "(full (Suc j) l \<and> full (Suc j) m) \<or> (full (Suc j) l \<and> full (Suc j) r) \<or> (full (Suc j) m \<and> full (Suc j) r)"
  shows "repaired (Suc (Suc j)) (Node3 l v m w r) (fixChildren (Node3 l v m w r))"
  using assms by (elim disjE conjE; simp add: fix3_none fix3_left fix3_mid fix3_right)

lemma remove_step:
  assumes rep: "repaired h r1 (fixChildren r1)"
    and tgt: "target \<Longrightarrow> d \<and> (\<exists>x. s = Some x \<and> values23 n = x # values23 r1)"
    and key: "\<not> target \<Longrightarrow> s = None \<and> values23 r1 = erase v (values23 n) \<and>
                d = (lookup v (values23 n) \<noteq> None)"
  shows "remove_ok h v target n (fixChildren r1 \<bind> (\<lambda>r2. Some (r2, d, s)))"
  using rep tgt key by (auto simp: remove_ok_def repaired_def split: option.splits)

lemma remove_ok_target:
  "remove_ok h v True n res \<Longrightarrow>
   \<exists>n' x. res = Some (n', True, Some x) \<and> (full h n' \<or> underflow h n') \<and>
          values23 n = x # values23 n'"
  by (auto simp: remove_ok_def split: option.splits)

lemma remove_ok_key:
  "remove_ok h v False n res \<Longrightarrow>
   \<exists>n'. res = Some (n', lookup v (values23 n) \<noteq> None, None) \<and>
        (full h n' \<or> underflow h n') \<and> values23 n' = erase v (values23 n)"
  by (auto simp: remove_ok_def split: option.splits)

lemma remove_full:
  "full (Suc k) n \<Longrightarrow> ordered (values23 n) \<Longrightarrow>
   remove_ok (Suc k) v target n (twoThreeNode_remove v target n)"
proof (induction n arbitrary: k target)
  case (Node2 l v1 m)
  show ?case
  proof (cases k)
    case 0
    with Node2.prems show ?thesis
      by (auto simp: remove_ok_def pivots)
  next
    case (Suc j)
    with Node2.prems have fl: "full (Suc j) l" and fm: "full (Suc j) m"
      and ol: "ordered (values23 l)" and om: "ordered (values23 m)"
      and b: "all_lt (values23 l) v1" "all_gt v1 (values23 m)"
      by (auto simp: pivots)
    from fl have lnn: "l \<noteq> NilTT" by auto
    consider (tg) "target" | (lt) "\<not> target" "Less v v1" | (eq) "\<not> target" "\<not> Less v v1" "Equal v v1"
      | (gt) "\<not> target" "\<not> Less v v1" "\<not> Equal v v1" by blast
    then show ?thesis
    proof cases
      case tg
      from remove_ok_target [OF Node2.IH(1) [OF fl ol, where target = True]]
      obtain l' x where
        c: "twoThreeNode_remove v True l = Some (l', True, Some x)"
        "full (Suc j) l' \<or> underflow (Suc j) l'" "values23 l = x # values23 l'"
        by blast
      have "remove_ok (Suc (Suc j)) v target (Node2 l v1 m)
              (fixChildren (Node2 l' v1 m) \<bind> (\<lambda>r2. Some (r2, True, Some x)))"
        using c tg fm b by (intro remove_step fix2) (auto simp: pivots)
      with tg lnn c Suc show ?thesis by simp
    next
      case lt
      from remove_ok_key [OF Node2.IH(1) [OF fl ol, where target = False]]
      obtain l' where
        c: "twoThreeNode_remove v False l = Some (l', lookup v (values23 l) \<noteq> None, None)"
        "full (Suc j) l' \<or> underflow (Suc j) l'" "values23 l' = erase v (values23 l)"
        by blast
      have "remove_ok (Suc (Suc j)) v target (Node2 l v1 m)
              (fixChildren (Node2 l' v1 m) \<bind> (\<lambda>r2. Some (r2, lookup v (values23 l) \<noteq> None, None)))"
        using c lt fm b by (intro remove_step fix2) (auto simp: pivots)
      with lt lnn c Suc show ?thesis by simp
    next
      case eq
      from remove_ok_target [OF Node2.IH(2) [OF fm om, where target = True]]
      obtain m' x where
        c: "twoThreeNode_remove v True m = Some (m', True, Some x)"
        "full (Suc j) m' \<or> underflow (Suc j) m'" "values23 m = x # values23 m'"
        by blast
      have "remove_ok (Suc (Suc j)) v target (Node2 l v1 m)
              (fixChildren (Node2 l x m') \<bind> (\<lambda>r2. Some (r2, True, None)))"
        using c eq fl b by (intro remove_step fix2) (auto simp: pivots)
      with eq lnn c Suc show ?thesis by simp
    next
      case gt
      from remove_ok_key [OF Node2.IH(2) [OF fm om, where target = False]]
      obtain m' where
        c: "twoThreeNode_remove v False m = Some (m', lookup v (values23 m) \<noteq> None, None)"
        "full (Suc j) m' \<or> underflow (Suc j) m'" "values23 m' = erase v (values23 m)"
        by blast
      have "remove_ok (Suc (Suc j)) v target (Node2 l v1 m)
              (fixChildren (Node2 l v1 m') \<bind> (\<lambda>r2. Some (r2, lookup v (values23 m) \<noteq> None, None)))"
        using c gt fl b by (intro remove_step fix2) (auto simp: pivots)
      with gt lnn c Suc show ?thesis by simp
    qed
  qed
next
  case (Node3 l v1 m v2 r)
  show ?case
  proof (cases k)
    case 0
    with Node3.prems show ?thesis
      by (auto simp: remove_ok_def pivots Less_def Equal_def)
  next
    case (Suc j)
    with Node3.prems have fl: "full (Suc j) l" and fm: "full (Suc j) m" and fr: "full (Suc j) r"
      and ol: "ordered (values23 l)" and om: "ordered (values23 m)" and or: "ordered (values23 r)"
      and b: "all_lt (values23 l) v1" "all_gt v1 (values23 m)" "Less v1 v2" "all_gt v1 (values23 r)"
        "all_lt (values23 m) v2" "all_gt v2 (values23 r)"
      by (auto simp: pivots)
    from fl have lnn: "l \<noteq> NilTT" by auto
    consider (tg) "target" | (lt) "\<not> target" "Less v v1"
      | (eq) "\<not> target" "\<not> Less v v1" "Equal v v1"
      | (md) "\<not> target" "\<not> Less v v1" "\<not> Equal v v1" "Less v v2"
      | (eq2) "\<not> target" "\<not> Less v v1" "\<not> Equal v v1" "\<not> Less v v2" "Equal v v2"
      | (gt) "\<not> target" "\<not> Less v v1" "\<not> Equal v v1" "\<not> Less v v2" "\<not> Equal v v2"
      by blast
    then show ?thesis
    proof cases
      case tg
      from remove_ok_target [OF Node3.IH(1) [OF fl ol, where target = True]]
      obtain l' x where
        c: "twoThreeNode_remove v True l = Some (l', True, Some x)"
        "full (Suc j) l' \<or> underflow (Suc j) l'" "values23 l = x # values23 l'"
        by blast
      have "remove_ok (Suc (Suc j)) v target (Node3 l v1 m v2 r)
              (fixChildren (Node3 l' v1 m v2 r) \<bind> (\<lambda>r2. Some (r2, True, Some x)))"
        using c tg fm fr b by (intro remove_step fix3) (auto simp: pivots)
      with tg lnn c Suc show ?thesis by simp
    next
      case lt
      from remove_ok_key [OF Node3.IH(1) [OF fl ol, where target = False]]
      obtain l' where
        c: "twoThreeNode_remove v False l = Some (l', lookup v (values23 l) \<noteq> None, None)"
        "full (Suc j) l' \<or> underflow (Suc j) l'" "values23 l' = erase v (values23 l)"
        by blast
      have "remove_ok (Suc (Suc j)) v target (Node3 l v1 m v2 r)
              (fixChildren (Node3 l' v1 m v2 r) \<bind> (\<lambda>r2. Some (r2, lookup v (values23 l) \<noteq> None, None)))"
        using c lt fm fr b by (intro remove_step fix3) (auto simp: pivots)
      with lt lnn c Suc show ?thesis by simp
    next
      case eq
      from remove_ok_target [OF Node3.IH(2) [OF fm om, where target = True]]
      obtain m' x where
        c: "twoThreeNode_remove v True m = Some (m', True, Some x)"
        "full (Suc j) m' \<or> underflow (Suc j) m'" "values23 m = x # values23 m'"
        by blast
      have "remove_ok (Suc (Suc j)) v target (Node3 l v1 m v2 r)
              (fixChildren (Node3 l x m' v2 r) \<bind> (\<lambda>r2. Some (r2, True, None)))"
        using c eq fl fr b by (intro remove_step fix3) (auto simp: pivots)
      with eq lnn c Suc show ?thesis by simp
    next
      case md
      from remove_ok_key [OF Node3.IH(2) [OF fm om, where target = False]]
      obtain m' where
        c: "twoThreeNode_remove v False m = Some (m', lookup v (values23 m) \<noteq> None, None)"
        "full (Suc j) m' \<or> underflow (Suc j) m'" "values23 m' = erase v (values23 m)"
        by blast
      have "remove_ok (Suc (Suc j)) v target (Node3 l v1 m v2 r)
              (fixChildren (Node3 l v1 m' v2 r) \<bind> (\<lambda>r2. Some (r2, lookup v (values23 m) \<noteq> None, None)))"
        using c md fl fr b by (intro remove_step fix3) (auto simp: pivots)
      with md lnn c Suc show ?thesis by simp
    next
      case eq2
      from remove_ok_target [OF Node3.IH(3) [OF fr or, where target = True]]
      obtain r' x where
        c: "twoThreeNode_remove v True r = Some (r', True, Some x)"
        "full (Suc j) r' \<or> underflow (Suc j) r'" "values23 r = x # values23 r'"
        by blast
      have "remove_ok (Suc (Suc j)) v target (Node3 l v1 m v2 r)
              (fixChildren (Node3 l v1 m x r') \<bind> (\<lambda>r2. Some (r2, True, None)))"
        using c eq2 fl fm b by (intro remove_step fix3) (auto simp: pivots)
      with eq2 lnn c Suc show ?thesis by simp
    next
      case gt
      from remove_ok_key [OF Node3.IH(3) [OF fr or, where target = False]]
      obtain r' where
        c: "twoThreeNode_remove v False r = Some (r', lookup v (values23 r) \<noteq> None, None)"
        "full (Suc j) r' \<or> underflow (Suc j) r'" "values23 r' = erase v (values23 r)"
        by blast
      have "remove_ok (Suc (Suc j)) v target (Node3 l v1 m v2 r)
              (fixChildren (Node3 l v1 m v2 r') \<bind> (\<lambda>r2. Some (r2, lookup v (values23 r) \<noteq> None, None)))"
        using c gt fl fm b by (intro remove_step fix3) (auto simp: pivots)
      with gt lnn c Suc show ?thesis by simp
    qed
  qed
qed simp_all

lemma full_NilTT [simp]: "full k NilTT = (k = 0)"
  by (cases k) simp_all

lemma leaf_depths_full: "full h n \<Longrightarrow> d \<in> set (leafDepths n) \<Longrightarrow> h = Suc d"
proof (induction n arbitrary: h d)
  case (Node2 l v1 m)
  from Node2.prems(1) obtain k where k: "h = Suc k" "full k l" "full k m" by auto
  show ?case
  proof (cases "l = NilTT")
    case True
    with k Node2.prems(2) show ?thesis by simp
  next
    case False
    with Node2.prems(2) obtain e where "d = Suc e" "e \<in> set (leafDepths l) \<or> e \<in> set (leafDepths m)"
      by auto
    with k Node2.IH(1) [of k e] Node2.IH(2) [of k e] show ?thesis by blast
  qed
next
  case (Node3 l v1 m v2 r)
  from Node3.prems(1) obtain k where k: "h = Suc k" "full k l" "full k m" "full k r" by auto
  show ?case
  proof (cases "l = NilTT")
    case True
    with k Node3.prems(2) show ?thesis by simp
  next
    case False
    with Node3.prems(2) obtain e where "d = Suc e"
      "e \<in> set (leafDepths l) \<or> e \<in> set (leafDepths m) \<or> e \<in> set (leafDepths r)"
      by auto
    with k Node3.IH(1) [of k e] Node3.IH(2) [of k e] Node3.IH(3) [of k e] show ?thesis by blast
  qed
qed simp_all

lemma children_match_full: "full h n \<Longrightarrow> childrenMatch n"
proof (induction n arbitrary: h)
  case (Node2 l v1 m)
  from Node2.prems obtain k where k: "h = Suc k" "full k l" "full k m" by auto
  from k Node2.IH have "childrenMatch l" "childrenMatch m" by blast+
  moreover from k have "(l = NilTT) = (k = 0)" "(m = NilTT) = (k = 0)" by (cases k; auto)+
  ultimately show ?case by simp
next
  case (Node3 l v1 m v2 r)
  from Node3.prems obtain k where k: "h = Suc k" "full k l" "full k m" "full k r" by auto
  from k Node3.IH have "childrenMatch l" "childrenMatch m" "childrenMatch r" by blast+
  moreover from k have "(l = NilTT) = (k = 0)" "(m = NilTT) = (k = 0)" "(r = NilTT) = (k = 0)"
    by (cases k; auto)+
  ultimately show ?case by simp
qed simp_all

lemma tt_invI:
  "full h (root23 t) \<Longrightarrow> ordered (values23 (root23 t)) \<Longrightarrow>
   count23 t = int (length (values23 (root23 t))) \<Longrightarrow> tt_inv t"
  unfolding tt_inv_def by blast

lemma tt_inv_empty: "tt_inv emptyTwoThreeTree"
  by (rule tt_invI [of 0]) (simp_all add: emptyTwoThreeTree_def)

lemma TwoThreeTree_Add_spec:
  assumes "tt_inv t"
  shows "\<exists>t'. TwoThreeTree_Add v t = Some t' \<and> tt_inv t' \<and>
              values23 (root23 t') = upsert v (values23 (root23 t))"
proof (cases "root23 t = NilTT")
  case True
  let ?t' = "t\<lparr>root23 := newTwoThreeNode v NilTT NilTT, count23 := 1\<rparr>"
  have "tt_inv ?t'"
    by (rule tt_invI [of "Suc 0"]) (simp_all add: newTwoThreeNode_def)
  with True show ?thesis
    by (simp add: TwoThreeTree_Add_def newTwoThreeNode_def)
next
  case False
  from assms obtain h where h: "full h (root23 t)" and o: "ordered (values23 (root23 t))"
    and c: "count23 t = int (length (values23 (root23 t)))"
    unfolding tt_inv_def by blast
  from False h obtain k where k: "h = Suc k" by (cases h) auto
  from h k have fk: "full (Suc k) (root23 t)" by simp
  have ok: "add_ok (Suc k) v (root23 t) (twoThreeNode_add v (root23 t))"
    using fk o by (rule add_full)
  then obtain res where res: "twoThreeNode_add v (root23 t) = Some res"
    by (auto simp: add_ok_def split: option.splits)
  show ?thesis
  proof (cases res)
    case (Same n a)
    with ok res have n: "full (Suc k) n" "values23 n = upsert v (values23 (root23 t))"
      "a = (lookup v (values23 (root23 t)) = None)"
      by (simp_all add: add_ok_def)
    let ?t' = "t\<lparr>root23 := n, count23 := (if a then count23 t + 1 else count23 t)\<rparr>"
    have "tt_inv ?t'"
      using n o c by (intro tt_invI [of "Suc k"]) (simp_all add: ordered_upsert length_upsert)
    with False res Same n show ?thesis
      by (simp add: TwoThreeTree_Add_def)
  next
    case (Split n a)
    with ok res obtain l x m where n: "n = Node2 l x m" "full (Suc k) l" "full (Suc k) m"
      "values23 n = upsert v (values23 (root23 t))" "a" "lookup v (values23 (root23 t)) = None"
      by (auto simp: add_ok_def)
    let ?t' = "t\<lparr>root23 := n, count23 := (if a then count23 t + 1 else count23 t)\<rparr>"
    have "full (Suc (Suc k)) n" using n(1-3) by simp
    then have "tt_inv ?t'"
      using n(4-6) o c by (intro tt_invI [of "Suc (Suc k)"]) (simp_all add: ordered_upsert length_upsert)
    with False res Split n(4) show ?thesis
      by (simp add: TwoThreeTree_Add_def)
  qed
qed

lemma TwoThreeTree_Remove_spec:
  assumes "tt_inv t"
  shows "\<exists>t'. TwoThreeTree_Remove v t = Some t' \<and> tt_inv t' \<and>
              values23 (root23 t') = erase v (values23 (root23 t))"
proof (cases "root23 t = NilTT")
  case True
  with assms show ?thesis
    by (simp add: TwoThreeTree_Remove_def)
next
  case False
  from assms obtain h where h: "full h (root23 t)" and o: "ordered (values23 (root23 t))"
    and c: "count23 t = int (length (values23 (root23 t)))"
    unfolding tt_inv_def by blast
  from False h obtain k where k: "h = Suc k" by (cases h) auto
  from h k have fk: "full (Suc k) (root23 t)" by simp
  have "remove_ok (Suc k) v False (root23 t) (twoThreeNode_remove v False (root23 t))"
    using fk o by (rule remove_full)
  from remove_ok_key [OF this]
  obtain n' where n': "twoThreeNode_remove v False (root23 t) =
        Some (n', lookup v (values23 (root23 t)) \<noteq> None, None)"
    "full (Suc k) n' \<or> underflow (Suc k) n'" "values23 n' = erase v (values23 (root23 t))"
    by blast
  let ?c = "if lookup v (values23 (root23 t)) \<noteq> None then count23 t - 1 else count23 t"
  have len: "int (length (erase v (values23 (root23 t)))) = ?c"
    using length_abstract_op [OF o, of "Remove v"] c by simp
  from n'(2) show ?thesis
  proof
    assume f: "full (Suc k) n'"
    then have nt: "nodeType n' = Some 2 \<or> nodeType n' = Some 3" by (cases n') simp_all
    have "tt_inv (t\<lparr>count23 := ?c, root23 := n'\<rparr>)"
      using f n'(3) o len by (intro tt_invI [of "Suc k"]) (simp_all add: ordered_erase)
    with nt False n'(1,3) show ?thesis
      by (auto simp: TwoThreeTree_Remove_def)
  next
    assume "underflow (Suc k) n'"
    then obtain a where a: "n' = Node1 a" "full k a" by (cases n') simp_all
    have "tt_inv (t\<lparr>count23 := ?c, root23 := a\<rparr>)"
      using a n'(3) o len by (intro tt_invI [of k]) (simp_all add: ordered_erase)
    with a False n'(1,3) show ?thesis
      by (auto simp: TwoThreeTree_Remove_def)
  qed
qed

lemma TwoThreeTree_apply_spec:
  "tt_inv t \<Longrightarrow> \<exists>t'. TwoThreeTree_apply x t = Some t' \<and> tt_inv t' \<and>
      values23 (root23 t') = abstract_op x (values23 (root23 t))"
proof (cases x)
  case (Add v)
  assume "tt_inv t"
  from TwoThreeTree_Add_spec [OF this, of v] Add show ?thesis by auto
next
  case (Remove v)
  assume "tt_inv t"
  from TwoThreeTree_Remove_spec [OF this, of v] Remove show ?thesis by auto
next
  case ClearAll
  have "tt_inv (TwoThreeTree_Clear t)"
    by (rule tt_invI [of 0]) (simp_all add: TwoThreeTree_Clear_def)
  with ClearAll show ?thesis
    by (simp add: TwoThreeTree_Clear_def)
qed

lemma TwoThreeTree_run_spec:
  "\<exists>t. run TwoThreeTree_apply xs emptyTwoThreeTree = Some t \<and> tt_inv t \<and>
       values23 (root23 t) = foldl (\<lambda>a x. abstract_op x a) [] xs"
proof -
  from run_steps [where step = TwoThreeTree_apply and I = tt_inv
      and \<alpha> = "\<lambda>t. values23 (root23 t)" and aop = abstract_op,
      OF TwoThreeTree_apply_spec tt_inv_empty]
  show ?thesis by (simp add: emptyTwoThreeTree_def)
qed

lemma Visit_spec: "tt_inv t \<Longrightarrow> Visit t = Some (values23 (root23 t))"
proof -
  assume "tt_inv t"
  then obtain h where h: "full h (root23 t)" unfolding tt_inv_def by blast
  show ?thesis
  proof (cases h)
    case 0
    with h show ?thesis by (simp add: Visit_def)
  next
    case (Suc k)
    with h have "full (Suc k) (root23 t)" by simp
    then have "root23 t \<noteq> NilTT" "twoThreeNode_visitInorder (root23 t) = Some (values23 (root23 t))"
      by (auto simp: visit_full)
    then show ?thesis by (simp add: Visit_def)
  qed
qed

lemma TwoThreeTree_Get_spec:
  "tt_inv t \<Longrightarrow> TwoThreeTree_Get t v = Some (lookup v (values23 (root23 t)))"
proof -
  assume a: "tt_inv t"
  show ?thesis
  proof (cases "root23 t = NilTT")
    case True
    then show ?thesis by (simp add: TwoThreeTree_Get_def)
  next
    case False
    from a obtain h where h: "full h (root23 t)" and o: "ordered (values23 (root23 t))"
      unfolding tt_inv_def by blast
    from False h obtain k where "h = Suc k" by (cases h) auto
    with h o False show ?thesis by (simp add: TwoThreeTree_Get_def get_full)
  qed
qed


section \<open>Runs of additions\<close>

lemma after_adds_Nil [simp]: "after_adds [] = []"
  by (simp add: after_adds_def)

lemma after_adds_snoc [simp]: "after_adds (vs @ [v]) = upsert v (after_adds vs)"
  by (simp add: after_adds_def)

lemma ordered_after_adds: "ordered (after_adds vs)"
  by (induction vs rule: rev_induct) (simp_all add: ordered_upsert)

lemma lookup_after_adds_None: "(lookup v (after_adds vs) = None) = (\<forall>w\<in>set vs. \<not> Equal v w)"
  by (induction vs rule: rev_induct) (auto simp: lookup_upsert)

lemma lookup_after_adds_member:
  "distinct (map key vs) \<Longrightarrow> u \<in> set vs \<Longrightarrow> lookup u (after_adds vs) = Some u"
proof (induction vs rule: rev_induct)
  case Nil
  then show ?case by simp
next
  case (snoc x xs)
  show ?case
  proof (cases "u = x")
    case True
    then show ?thesis by (simp add: lookup_upsert Equal_def)
  next
    case False
    with snoc.prems have "u \<in> set xs" "distinct (map key xs)" "key x \<notin> key ` set xs" by auto
    then have "u \<in> set xs" "key u \<noteq> key x" "distinct (map key xs)" by (auto simp: image_iff)
    with snoc.IH show ?thesis by (simp add: lookup_upsert Equal_def)
  qed
qed

lemma run_append:
  "run step (xs @ ys) t = run step xs t \<bind> run step ys"
  by (induction xs arbitrary: t) (simp_all split: Option.bind_splits)

lemma AVLTree_fresh_adds:
  "distinct (map key vs) \<Longrightarrow>
   \<exists>t. run AVLTree_apply (map Add vs) emptyTree = Some t \<and> avl_inv t \<and>
       visitInorder (root t) = after_adds vs \<and> count t = int (length (after_adds vs))"
proof (induction vs rule: rev_induct)
  case Nil
  then show ?case by (simp add: avl_inv_empty) (simp add: emptyTree_def)
next
  case (snoc x xs)
  then obtain t where t: "run AVLTree_apply (map Add xs) emptyTree = Some t" "avl_inv t"
    "visitInorder (root t) = after_adds xs" "count t = int (length (after_adds xs))"
    by auto
  from snoc.prems have "\<forall>w\<in>set xs. \<not> Equal x w" by (auto simp: Equal_def)
  then have fresh: "lookup x (after_adds xs) = None" by (simp add: lookup_after_adds_None)
  then have "x \<notin> set (after_adds xs)" by (auto simp: lookup_None_iff Equal_def)
  with t(3) have nc: "\<not> contains (root t) x" by (simp add: contains_set)
  have nil: "root t = NilBT \<Longrightarrow> after_adds xs = []" using t(3) by auto
  from AVLTree_Add_spec [OF t(2), of x] obtain t' where t': "AVLTree_Add x t = Some t'" "avl_inv t'"
    "visitInorder (root t') = upsert x (visitInorder (root t))"
    "count t' = (if root t = NilBT then 1 else if contains (root t) x then count t else count t + 1)"
    by blast
  have "count t' = int (length (upsert x (after_adds xs)))"
    using t'(4) nc t(4) nil fresh by (auto simp: length_upsert_fresh)
  with t t' show ?case by (simp add: run_append)
qed

section \<open>The claims about the three search trees\<close>

lemma BinarySearchTree_adds:
  "\<exists>t. run BinarySearchTree_apply (map Add vs) emptyTree = Some t \<and> bst_inv t \<and>
       visitInorder (root t) = after_adds vs"
  using BinarySearchTree_run_spec [of "map Add vs"] by (simp add: after_adds_def)

lemma TwoThreeTree_adds:
  "\<exists>t. run TwoThreeTree_apply (map Add vs) emptyTwoThreeTree = Some t \<and> tt_inv t \<and>
       values23 (root23 t) = after_adds vs"
  using TwoThreeTree_run_spec [of "map Add vs"] by (simp add: after_adds_def)

lemma Get_spec: "ordered (visitInorder (root t)) \<Longrightarrow> Get t v = lookup v (visitInorder (root t))"
  by (simp add: Get_def Get_loop_spec)

lemma BinarySearchTree_round_trip:
  assumes "distinct (map key vs)"
  shows "\<exists>t. run BinarySearchTree_apply (map Add vs) emptyTree = Some t \<and>
      (\<forall>v\<in>set vs. Get t v = Some v) \<and>
      (\<forall>v. \<exists>t'. BinarySearchTree_Remove v t = Some t' \<and> Get t' v = None \<and>
            Size t' = (if \<exists>u\<in>set vs. Equal v u then Size t - 1 else Size t))"
proof -
  from BinarySearchTree_adds [of vs] obtain t where
    t: "run BinarySearchTree_apply (map Add vs) emptyTree = Some t" "bst_inv t"
    "visitInorder (root t) = after_adds vs" by blast
  have get: "\<forall>v\<in>set vs. Get t v = Some v"
    using t assms by (simp add: Get_spec ordered_after_adds lookup_after_adds_member)
  have rem: "\<exists>t'. BinarySearchTree_Remove v t = Some t' \<and> Get t' v = None \<and>
            Size t' = (if \<exists>u\<in>set vs. Equal v u then Size t - 1 else Size t)" for v
  proof -
    from BinarySearchTree_Remove_spec [OF t(2), of v] obtain t' where
      t': "BinarySearchTree_Remove v t = Some t'" "bst_inv t'"
      "visitInorder (root t') = erase v (visitInorder (root t))" by blast
    have "Get t' v = None"
      using t' t(3) by (simp add: Get_spec ordered_erase ordered_after_adds lookup_erase Equal_def)
    moreover have "Size t' = (if \<exists>u\<in>set vs. Equal v u then Size t - 1 else Size t)"
      using t'(2,3) t(2,3) length_abstract_op [OF ordered_after_adds, of "Remove v" vs]
        lookup_after_adds_None [of v vs]
      by (auto simp: Size_def bst_inv_def)
    ultimately show ?thesis using t'(1) by blast
  qed
  from t(1) get rem show ?thesis by blast
qed

lemma AVLTree_round_trip:
  assumes "distinct (map key vs)"
  shows "\<exists>t. run AVLTree_apply (map Add vs) emptyTree = Some t \<and>
      (\<forall>v\<in>set vs. Get t v = Some v) \<and>
      (\<forall>v. \<exists>t'. AVLTree_Remove v t = Some t' \<and> Get t' v = None \<and>
            Size t' = (if \<exists>u\<in>set vs. Equal v u then Size t - 1 else Size t))"
proof -
  from AVLTree_fresh_adds [OF assms] obtain t where
    t: "run AVLTree_apply (map Add vs) emptyTree = Some t" "avl_inv t"
    "visitInorder (root t) = after_adds vs" "count t = int (length (after_adds vs))" by blast
  have get: "\<forall>v\<in>set vs. Get t v = Some v"
    using t assms by (simp add: Get_spec ordered_after_adds lookup_after_adds_member)
  have rem: "\<exists>t'. AVLTree_Remove v t = Some t' \<and> Get t' v = None \<and>
            Size t' = (if \<exists>u\<in>set vs. Equal v u then Size t - 1 else Size t)" for v
  proof -
    from AVLTree_Remove_spec [OF t(2), of v] obtain t' where
      t': "AVLTree_Remove v t = Some t'" "avl_inv t'"
      "visitInorder (root t') = erase v (visitInorder (root t))"
      "count t' = (if lookup v (visitInorder (root t)) = None then count t else count t - 1)"
      by blast
    have "Get t' v = None"
      using t' t(3) by (simp add: Get_spec ordered_erase ordered_after_adds lookup_erase Equal_def)
    moreover have "Size t' = (if \<exists>u\<in>set vs. Equal v u then Size t - 1 else Size t)"
      using t'(4) t(3) lookup_after_adds_None [of v vs]
      by (auto simp: Size_def)
    ultimately show ?thesis using t'(1) by blast
  qed
  from t(1) get rem show ?thesis by blast
qed

lemma TwoThreeTree_round_trip:
  assumes "distinct (map key vs)"
  shows "\<exists>t. run TwoThreeTree_apply (map Add vs) emptyTwoThreeTree = Some t \<and>
      (\<forall>v\<in>set vs. TwoThreeTree_Get t v = Some (Some v)) \<and>
      (\<forall>v. \<exists>t'. TwoThreeTree_Remove v t = Some t' \<and> TwoThreeTree_Get t' v = Some None \<and>
            TwoThreeTree_Size t' =
              (if \<exists>u\<in>set vs. Equal v u then TwoThreeTree_Size t - 1 else TwoThreeTree_Size t))"
proof -
  from TwoThreeTree_adds [of vs] obtain t where
    t: "run TwoThreeTree_apply (map Add vs) emptyTwoThreeTree = Some t" "tt_inv t"
    "values23 (root23 t) = after_adds vs" by blast
  have get: "\<forall>v\<in>set vs. TwoThreeTree_Get t v = Some (Some v)"
    using t assms by (simp add: TwoThreeTree_Get_spec lookup_after_adds_member)
  have rem: "\<exists>t'. TwoThreeTree_Remove v t = Some t' \<and> TwoThreeTree_Get t' v = Some None \<and>
            TwoThreeTree_Size t' =
              (if \<exists>u\<in>set vs. Equal v u then TwoThreeTree_Size t - 1 else TwoThreeTree_Size t)" for v
  proof -
    from TwoThreeTree_Remove_spec [OF t(2), of v] obtain t' where
      t': "TwoThreeTree_Remove v t = Some t'" "tt_inv t'"
      "values23 (root23 t') = erase v (values23 (root23 t))" by blast
    have "TwoThreeTree_Get t' v = Some None"
      using t' by (simp add: TwoThreeTree_Get_spec lookup_erase Equal_def)
    moreover have "TwoThreeTree_Size t' =
        (if \<exists>u\<in>set vs. Equal v u then TwoThreeTree_Size t - 1 else TwoThreeTree_Size t)"
      using t'(2,3) t(2,3) length_abstract_op [OF ordered_after_adds, of "Remove v" vs]
        lookup_after_adds_None [of v vs]
      by (auto simp: TwoThreeTree_Size_def tt_inv_def)
    ultimately show ?thesis using t'(1) by blast
  qed
  from t(1) get rem show ?thesis by blast
qed

text \<open>
  C2: after any sequence of Add and Remove (and Clear) on an empty TwoThreeTree, no
  operation panics, all leaves of the tree are at the same depth, and every node is a
  2-node or a 3-node: an inner 2-node with its 2 children, an inner 3-node with its 3.
\<close>

theorem TwoThreeTree_stays_perfectly_balanced:
  "\<exists>t. run TwoThreeTree_apply ops emptyTwoThreeTree = Some t \<and>
       childrenMatch (root23 t) \<and>
       (\<forall>d\<in>set (leafDepths (root23 t)). \<forall>e\<in>set (leafDepths (root23 t)). d = e)"
proof -
  from TwoThreeTree_run_spec [of ops] obtain t h where
    t: "run TwoThreeTree_apply ops emptyTwoThreeTree = Some t" "full h (root23 t)"
    unfolding tt_inv_def by blast
  from t(2) have "childrenMatch (root23 t)" by (rule children_match_full)
  moreover have "\<forall>d\<in>set (leafDepths (root23 t)). \<forall>e\<in>set (leafDepths (root23 t)). d = e"
  proof (intro ballI)
    fix d e
    assume d: "d \<in> set (leafDepths (root23 t))" and e: "e \<in> set (leafDepths (root23 t))"
    from leaf_depths_full [OF t(2) d] leaf_depths_full [OF t(2) e] show "d = e" by simp
  qed
  ultimately show ?thesis using t(1) by blast
qed

theorem TwoThreeTree_stays_perfectly_balanced_witness:
  "\<exists>t. run TwoThreeTree_apply
          [Add (KeyValue (30::int) ''a''), Add (KeyValue 40 ''b''), Add (KeyValue 25 ''c''),
           Add (KeyValue 50 ''d''), Remove (KeyValue 30 ''''), Add (KeyValue 20 ''e'')]
          emptyTwoThreeTree = Some t \<and>
       childrenMatch (root23 t) \<and>
       (\<forall>d\<in>set (leafDepths (root23 t)). \<forall>e\<in>set (leafDepths (root23 t)). d = e)"
  by (rule TwoThreeTree_stays_perfectly_balanced)

text \<open>
  C3: after any sequence of Add and Remove (and Clear) on an empty BinarySearchTree,
  AVLTree or TwoThreeTree, the inorder traversal (VisitInorder, Visit for the 2-3 tree)
  passes to the visitor exactly the stored values, in strictly increasing order of Less:
  the sequence is the one obtained by replaying the operations on a sorted list (Add puts
  the value in place of the one with an Equal key, or inserts it; Remove drops the one with
  an Equal key), no two neighbours are out of order, and a value is in the sequence if and
  only if Get returns it.
\<close>

theorem inorder_strictly_increasing:
  "(\<exists>t. run BinarySearchTree_apply ops emptyTree = Some t \<and>
        VisitInorder t = foldl (\<lambda>xs x. abstract_op x xs) [] ops \<and>
        sorted_wrt Less (VisitInorder t) \<and>
        (\<forall>v. v \<in> set (VisitInorder t) \<longleftrightarrow> Get t v = Some v)) \<and>
   (\<exists>t. run AVLTree_apply ops emptyTree = Some t \<and>
        VisitInorder t = foldl (\<lambda>xs x. abstract_op x xs) [] ops \<and>
        sorted_wrt Less (VisitInorder t) \<and>
        (\<forall>v. v \<in> set (VisitInorder t) \<longleftrightarrow> Get t v = Some v)) \<and>
   (\<exists>t xs. run TwoThreeTree_apply ops emptyTwoThreeTree = Some t \<and> Visit t = Some xs \<and>
        xs = foldl (\<lambda>xs x. abstract_op x xs) [] ops \<and>
        sorted_wrt Less xs \<and>
        (\<forall>v. v \<in> set xs \<longleftrightarrow> TwoThreeTree_Get t v = Some (Some v)))"
proof (intro conjI)
  have member: "(v \<in> set xs) = (lookup v xs = Some v)" if "ordered xs"
    for v :: "('a, 'b) KeyValue" and xs
    using that lookup_member [of xs v] lookup_Some_member [of v xs v] by blast
  from BinarySearchTree_run_spec [of ops] obtain t where
    t: "run BinarySearchTree_apply ops emptyTree = Some t" "bst_inv t"
       "visitInorder (root t) = foldl (\<lambda>a x. abstract_op x a) [] ops" by blast
  from t(2) have o: "ordered (visitInorder (root t))" by (simp add: bst_inv_def)
  have "\<forall>v. v \<in> set (VisitInorder t) \<longleftrightarrow> Get t v = Some v"
    using member [OF o] by (simp add: VisitInorder_root Get_spec [OF o])
  with t(1,3) o
  show "\<exists>t. run BinarySearchTree_apply ops emptyTree = Some t \<and>
        VisitInorder t = foldl (\<lambda>xs x. abstract_op x xs) [] ops \<and>
        sorted_wrt Less (VisitInorder t) \<and>
        (\<forall>v. v \<in> set (VisitInorder t) \<longleftrightarrow> Get t v = Some v)"
    unfolding VisitInorder_root ordered_def by blast
  from AVLTree_run_spec [of ops] obtain t where
    t: "run AVLTree_apply ops emptyTree = Some t" "avl_inv t"
       "visitInorder (root t) = foldl (\<lambda>a x. abstract_op x a) [] ops" by blast
  from t(2) have o: "ordered (visitInorder (root t))" by (simp add: avl_inv_def)
  have "\<forall>v. v \<in> set (VisitInorder t) \<longleftrightarrow> Get t v = Some v"
    using member [OF o] by (simp add: VisitInorder_root Get_spec [OF o])
  with t(1,3) o
  show "\<exists>t. run AVLTree_apply ops emptyTree = Some t \<and>
        VisitInorder t = foldl (\<lambda>xs x. abstract_op x xs) [] ops \<and>
        sorted_wrt Less (VisitInorder t) \<and>
        (\<forall>v. v \<in> set (VisitInorder t) \<longleftrightarrow> Get t v = Some v)"
    unfolding VisitInorder_root ordered_def by blast
  from TwoThreeTree_run_spec [of ops] obtain t where
    t: "run TwoThreeTree_apply ops emptyTwoThreeTree = Some t" "tt_inv t"
       "values23 (root23 t) = foldl (\<lambda>a x. abstract_op x a) [] ops" by blast
  from t(2) have o: "ordered (values23 (root23 t))" by (simp add: tt_inv_def)
  have v: "Visit t = Some (values23 (root23 t))" using t(2) by (rule Visit_spec)
  have "\<forall>v. v \<in> set (values23 (root23 t)) \<longleftrightarrow> TwoThreeTree_Get t v = Some (Some v)"
    using member [OF o] by (simp add: TwoThreeTree_Get_spec [OF t(2)])
  with t(1,3) o v
  show "\<exists>t xs. run TwoThreeTree_apply ops emptyTwoThreeTree = Some t \<and> Visit t = Some xs \<and>
        xs = foldl (\<lambda>xs x. abstract_op x xs) [] ops \<and>
        sorted_wrt Less xs \<and>
        (\<forall>v. v \<in> set xs \<longleftrightarrow> TwoThreeTree_Get t v = Some (Some v))"
    unfolding ordered_def by blast
qed

theorem inorder_strictly_increasing_witness:
  "(\<exists>t. run BinarySearchTree_apply
           [Add (KeyValue (2::int) ''b''), Add (KeyValue 1 ''a''), Add (KeyValue 3 ''c''),
            Add (KeyValue 3 ''d''), Remove (KeyValue 2 '''')] emptyTree = Some t \<and>
        VisitInorder t = [KeyValue 1 ''a'', KeyValue 3 ''d''] \<and>
        sorted_wrt Less (VisitInorder t) \<and>
        (\<forall>v. v \<in> set (VisitInorder t) \<longleftrightarrow> Get t v = Some v)) \<and>
   (\<exists>t. run AVLTree_apply
           [Add (KeyValue (2::int) ''b''), Add (KeyValue 1 ''a''), Add (KeyValue 3 ''c''),
            Add (KeyValue 3 ''d''), Remove (KeyValue 2 '''')] emptyTree = Some t \<and>
        VisitInorder t = [KeyValue 1 ''a'', KeyValue 3 ''d''] \<and>
        sorted_wrt Less (VisitInorder t) \<and>
        (\<forall>v. v \<in> set (VisitInorder t) \<longleftrightarrow> Get t v = Some v)) \<and>
   (\<exists>t xs. run TwoThreeTree_apply
           [Add (KeyValue (2::int) ''b''), Add (KeyValue 1 ''a''), Add (KeyValue 3 ''c''),
            Add (KeyValue 3 ''d''), Remove (KeyValue 2 '''')] emptyTwoThreeTree = Some t \<and>
        Visit t = Some xs \<and>
        xs = [KeyValue 1 ''a'', KeyValue 3 ''d''] \<and>
        sorted_wrt Less xs \<and>
        (\<forall>v. v \<in> set xs \<longleftrightarrow> TwoThreeTree_Get t v = Some (Some v)))"
  using inorder_strictly_increasing
          [of "[Add (KeyValue (2::int) ''b''), Add (KeyValue 1 ''a''), Add (KeyValue 3 ''c''),
                Add (KeyValue 3 ''d''), Remove (KeyValue 2 '''')]"]
  by (simp add: upsert_def erase_def Less_def Equal_def)

text \<open>
  C4: let pairwise-distinct values (no two of them Equal) be added to an empty
  BinarySearchTree, AVLTree or TwoThreeTree. Then Get of each of them returns that value
  with found = true; and after Remove of any value v, Get of v returns found = false and
  Size is one less than before if a value Equal to v had been added, and the same if not.
\<close>

theorem add_get_remove_round_trip:
  assumes "distinct (map key vs)"
  shows "(\<exists>t. run BinarySearchTree_apply (map Add vs) emptyTree = Some t \<and>
      (\<forall>v\<in>set vs. Get t v = Some v) \<and>
      (\<forall>v. \<exists>t'. BinarySearchTree_Remove v t = Some t' \<and> Get t' v = None \<and>
            Size t' = (if \<exists>u\<in>set vs. Equal v u then Size t - 1 else Size t))) \<and>
    (\<exists>t. run AVLTree_apply (map Add vs) emptyTree = Some t \<and>
      (\<forall>v\<in>set vs. Get t v = Some v) \<and>
      (\<forall>v. \<exists>t'. AVLTree_Remove v t = Some t' \<and> Get t' v = None \<and>
            Size t' = (if \<exists>u\<in>set vs. Equal v u then Size t - 1 else Size t))) \<and>
    (\<exists>t. run TwoThreeTree_apply (map Add vs) emptyTwoThreeTree = Some t \<and>
      (\<forall>v\<in>set vs. TwoThreeTree_Get t v = Some (Some v)) \<and>
      (\<forall>v. \<exists>t'. TwoThreeTree_Remove v t = Some t' \<and> TwoThreeTree_Get t' v = Some None \<and>
            TwoThreeTree_Size t' =
              (if \<exists>u\<in>set vs. Equal v u then TwoThreeTree_Size t - 1 else TwoThreeTree_Size t)))"
  using BinarySearchTree_round_trip [OF assms] AVLTree_round_trip [OF assms]
    TwoThreeTree_round_trip [OF assms]
  by (intro conjI)

theorem add_get_remove_round_trip_witness:
  "distinct (map key [KeyValue (2::int) ''b'', KeyValue 1 ''a'', KeyValue 3 ''c'']) \<and>
   ((\<exists>t. run BinarySearchTree_apply (map Add [KeyValue (2::int) ''b'', KeyValue 1 ''a'', KeyValue 3 ''c'']) emptyTree = Some t \<and>
      (\<forall>v\<in>set [KeyValue (2::int) ''b'', KeyValue 1 ''a'', KeyValue 3 ''c'']. Get t v = Some v) \<and>
      (\<forall>v. \<exists>t'. BinarySearchTree_Remove v t = Some t' \<and> Get t' v = None \<and>
            Size t' = (if \<exists>u\<in>set [KeyValue (2::int) ''b'', KeyValue 1 ''a'', KeyValue 3 ''c'']. Equal v u then Size t - 1 else Size t))) \<and>
    (\<exists>t. run AVLTree_apply (map Add [KeyValue (2::int) ''b'', KeyValue 1 ''a'', KeyValue 3 ''c'']) emptyTree = Some t \<and>
      (\<forall>v\<in>set [KeyValue (2::int) ''b'', KeyValue 1 ''a'', KeyValue 3 ''c'']. Get t v = Some v) \<and>
      (\<forall>v. \<exists>t'. AVLTree_Remove v t = Some t' \<and> Get t' v = None \<and>
            Size t' = (if \<exists>u\<in>set [KeyValue (2::int) ''b'', KeyValue 1 ''a'', KeyValue 3 ''c'']. Equal v u then Size t - 1 else Size t))) \<and>
    (\<exists>t. run TwoThreeTree_apply (map Add [KeyValue (2::int) ''b'', KeyValue 1 ''a'', KeyValue 3 ''c'']) emptyTwoThreeTree = Some t \<and>
      (\<forall>v\<in>set [KeyValue (2::int) ''b'', KeyValue 1 ''a'', KeyValue 3 ''c'']. TwoThreeTree_Get t v = Some (Some v)) \<and>
      (\<forall>v. \<exists>t'. TwoThreeTree_Remove v t = Some t' \<and> TwoThreeTree_Get t' v = Some None \<and>
            TwoThreeTree_Size t' =
              (if \<exists>u\<in>set [KeyValue (2::int) ''b'', KeyValue 1 ''a'', KeyValue 3 ''c'']. Equal v u then TwoThreeTree_Size t - 1 else TwoThreeTree_Size t))))"
proof -
  have h: "distinct (map key [KeyValue (2::int) ''b'', KeyValue 1 ''a'', KeyValue 3 ''c''])"
    by simp
  show ?thesis using h add_get_remove_round_trip [OF h] by (rule conjI)
qed

text \<open>
  C9: BinaryTree.Contains, the exhaustive search, compares with the built-in equality: it
  is true exactly for a value that is stored with the same key and the same payload.
  So in every tree that Add and Remove build from the empty BinarySearchTree or
  AVLTree, for a stored value s and a query e with Equal e s and another payload,
  BinaryTree.Contains (and the node-level contains that AVLTree.Add asks) is false while
  BinarySearchTree.Contains is true.
\<close>

theorem Contains_compares_with_builtin_equality:
  "(BinaryTree_Contains tree e \<longleftrightarrow> e \<in> set (VisitInorder tree)) \<and>
   ((run BinarySearchTree_apply ops emptyTree = Some t \<or> run AVLTree_apply ops emptyTree = Some t) \<longrightarrow>
      s \<in> set (VisitInorder t) \<longrightarrow> Equal e s \<longrightarrow> payload e \<noteq> payload s \<longrightarrow>
      \<not> BinaryTree_Contains t e \<and> \<not> contains (root t) e \<and> BinarySearchTree_Contains t e)"
proof (intro conjI impI)
  show "BinaryTree_Contains tree e \<longleftrightarrow> e \<in> set (VisitInorder tree)"
    by (auto simp: BinaryTree_Contains_def VisitInorder_def contains_set)
next
  assume r: "run BinarySearchTree_apply ops emptyTree = Some t \<or> run AVLTree_apply ops emptyTree = Some t"
    and s: "s \<in> set (VisitInorder t)" and eq: "Equal e s" and p: "payload e \<noteq> payload s"
  from r BinarySearchTree_run_spec [of ops] AVLTree_run_spec [of ops]
  have o: "ordered (visitInorder (root t))"
    by (auto simp: bst_inv_def avl_inv_def)
  from p have "e \<noteq> s" by auto
  with equal_key_other_payload [OF o _ eq] s
  have "e \<notin> set (visitInorder (root t))" "lookup e (visitInorder (root t)) = Some s"
    by (simp_all add: VisitInorder_root)
  with o show "\<not> BinaryTree_Contains t e" "\<not> contains (root t) e" "BinarySearchTree_Contains t e"
    by (simp_all add: BinaryTree_Contains_def contains_set BinarySearchTree_Contains_def
        Contains_loop_spec)
qed

theorem Contains_compares_with_builtin_equality_witness:
  "run BinarySearchTree_apply [Add (KeyValue (1::int) ''a'')] emptyTree
     = Some \<lparr>count = 1, root = BTNode (KeyValue 1 ''a'') NilBT NilBT 0\<rparr> \<and>
   KeyValue (1::int) ''a'' \<in> set (VisitInorder \<lparr>count = 1, root = BTNode (KeyValue 1 ''a'') NilBT NilBT 0\<rparr>) \<and>
   Equal (KeyValue (1::int) ''b'') (KeyValue 1 ''a'') \<and>
   payload (KeyValue (1::int) ''b'') \<noteq> payload (KeyValue (1::int) ''a'') \<and>
   \<not> BinaryTree_Contains \<lparr>count = 1, root = BTNode (KeyValue (1::int) ''a'') NilBT NilBT 0\<rparr> (KeyValue 1 ''b'') \<and>
   BinarySearchTree_Contains \<lparr>count = 1, root = BTNode (KeyValue (1::int) ''a'') NilBT NilBT 0\<rparr> (KeyValue 1 ''b'')"
proof -
  have r: "run BinarySearchTree_apply [Add (KeyValue (1::int) ''a'')] emptyTree
     = Some \<lparr>count = 1, root = BTNode (KeyValue 1 ''a'') NilBT NilBT 0\<rparr>"
    by (simp add: BinarySearchTree_Add_def emptyTree_def)
  have s: "KeyValue (1::int) ''a'' \<in> set (VisitInorder \<lparr>count = 1, root = BTNode (KeyValue 1 ''a'') NilBT NilBT 0\<rparr>)"
    by (simp add: VisitInorder_def)
  have e: "Equal (KeyValue (1::int) ''b'') (KeyValue 1 ''a'')" by (simp add: Equal_def)
  have p: "payload (KeyValue (1::int) ''b'') \<noteq> payload (KeyValue (1::int) ''a'')" by simp
  from Contains_compares_with_builtin_equality
    [where ops = "[Add (KeyValue (1::int) ''a'')]"
       and t = "\<lparr>count = 1, root = BTNode (KeyValue 1 ''a'') NilBT NilBT 0\<rparr>"
       and s = "KeyValue 1 ''a''" and e = "KeyValue 1 ''b''"]
    r s e p
  show ?thesis by blast
qed

text \<open>
  C5, at the input where AVLTree fails it: a second Add with an equal key and another
  payload replaces the value in all three trees, and leaves Size at 1 in BinarySearchTree
  and TwoThreeTree, but AVLTree.Add counts it as a new value and Size becomes 2.
\<close>

theorem AVLTree_Add_counts_overwrite:
  "run AVLTree_apply [Add (KeyValue (1::int) ''a''), Add (KeyValue 1 ''b'')] emptyTree
     = Some \<lparr>count = 2, root = BTNode (KeyValue 1 ''b'') NilBT NilBT 0\<rparr> \<and>
   run AVLTree_apply [Add (KeyValue (1::int) ''a'')] emptyTree
     = Some \<lparr>count = 1, root = BTNode (KeyValue 1 ''a'') NilBT NilBT 0\<rparr> \<and>
   run BinarySearchTree_apply [Add (KeyValue (1::int) ''a''), Add (KeyValue 1 ''b'')] emptyTree
     = Some \<lparr>count = 1, root = BTNode (KeyValue 1 ''b'') NilBT NilBT 0\<rparr> \<and>
   run TwoThreeTree_apply [Add (KeyValue (1::int) ''a''), Add (KeyValue 1 ''b'')] emptyTwoThreeTree
     = Some \<lparr>count23 = 1, root23 = Node2 NilTT (KeyValue 1 ''b'') NilTT\<rparr>"
  by (simp add: AVLTree_Add_def BinarySearchTree_Add_def TwoThreeTree_Add_def emptyTree_def
      emptyTwoThreeTree_def newAVLNode_def newBTNode_def newTwoThreeNode_def setHeight.simps
      Equal_def Less_def)

text \<open>
  C6, at the input where AVLTree fails it: after two Adds with equal keys and different
  payloads and one Remove, the AVLTree has no root and its count is 1.
\<close>

theorem AVLTree_count_without_root:
  "run AVLTree_apply
     [Add (KeyValue (1::int) ''a''), Add (KeyValue 1 ''b''), Remove (KeyValue 1 ''c'')] emptyTree
     = Some \<lparr>count = 1, root = NilBT\<rparr>"
  by (simp add: AVLTree_Add_def AVLTree_Remove_def BinarySearchTree_Contains_def emptyTree_def
      newAVLNode_def newBTNode_def setHeight.simps Equal_def Less_def)


section \<open>External iterators against the internal traversals\<close>

lemma pending_pushLeftPath: "pending_bt (pushLeftPath n st) = visitInorder n @ pending_bt st"
  by (induction n arbitrary: st) simp_all

lemma no_nil_pushLeftPath: "NilBT \<notin> set st \<Longrightarrow> NilBT \<notin> set (pushLeftPath n st)"
  by (induction n arbitrary: st) simp_all

lemma inorderIterator_all_pending:
  "NilBT \<notin> set (stack iterator) \<Longrightarrow>
   inorderIterator_all iterator = Some (pending_bt (stack iterator))"
proof (induction iterator rule: inorderIterator_all.induct)
  case (1 iterator)
  show ?case
  proof (cases "stack iterator")
    case Nil
    then show ?thesis by (simp add: inorderIterator_all.simps inorderIterator_Next_def)
  next
    case (Cons node st)
    with "1.prems" obtain v l r h where node: "node = BTNode v l r h" by (cases node) auto
    let ?it = "iterator\<lparr>stack := pushLeftPath r st\<rparr>"
    have nx: "inorderIterator_Next iterator = Some (Some v, ?it)"
      using Cons node by (simp add: inorderIterator_Next_def)
    have "NilBT \<notin> set (stack ?it)" using "1.prems" Cons by (simp add: no_nil_pushLeftPath)
    with "1.IH" [OF nx refl refl] have "inorderIterator_all ?it = Some (pending_bt (stack ?it))"
      by simp
    with nx Cons node show ?thesis
      by (simp add: inorderIterator_all.simps [of iterator] pending_pushLeftPath)
  qed
qed

lemma BinaryTree_iterator_agrees:
  "inorderIterator_all (NewInorderIterator tree) = Some (VisitInorder tree)"
proof -
  have "NilBT \<notin> set (stack (NewInorderIterator tree))"
    by (simp add: NewInorderIterator_def inorderIterator_Reset_def no_nil_pushLeftPath)
  then have "inorderIterator_all (NewInorderIterator tree) =
      Some (pending_bt (stack (NewInorderIterator tree)))"
    by (rule inorderIterator_all_pending)
  moreover have "pending_bt (stack (NewInorderIterator tree)) = VisitInorder tree"
    by (simp add: NewInorderIterator_def inorderIterator_Reset_def pending_pushLeftPath
        VisitInorder_def)
  ultimately show ?thesis by simp
qed

lemma pushLeftPath23_full:
  "full h n \<Longrightarrow> stack_full st \<Longrightarrow>
   stack_full (pushLeftPath23 n st) \<and> pending23 (pushLeftPath23 n st) = values23 n @ pending23 st"
proof (induction n arbitrary: h st)
  case (Node2 l v1 m)
  then obtain k where k: "h = Suc k" "full k l" "full k m" by auto
  then have "full (Suc k) (Node2 l v1 m)" by simp
  with Node2.prems(2) have "stack_full (Node2 l v1 m # st)"
    unfolding stack_full_def by (metis set_ConsD)
  with Node2.IH(1) [OF k(2)] show ?case by simp
next
  case (Node3 l v1 m v2 r)
  then obtain k where k: "h = Suc k" "full k l" "full k m" "full k r" by auto
  then have "full (Suc k) (Node3 l v1 m v2 r)" by simp
  with Node3.prems(2) have "stack_full (Node3 l v1 m v2 r # st)"
    unfolding stack_full_def by (metis set_ConsD)
  with Node3.IH(1) [OF k(2)] show ?case by simp
qed simp_all

lemma twoThreeTreeIterator_all_pending:
  "stack_full (stack23 iter) \<Longrightarrow>
   twoThreeTreeIterator_all iter = Some (pending23 (stack23 iter))"
proof (induction iter rule: twoThreeTreeIterator_all.induct)
  case (1 iter)
  show ?case
  proof (cases "stack23 iter")
    case Nil
    then show ?thesis
      by (simp add: twoThreeTreeIterator_all.simps twoThreeTreeIterator_Next_def)
  next
    case (Cons node st)
    with "1.prems" obtain k where k: "full (Suc k) node" and st: "stack_full st"
      by (auto simp: stack_full_def)
    from k show ?thesis
    proof (cases rule: full_SucE)
      case (two l v1 m)
      let ?st = "if l \<noteq> NilTT then pushLeftPath23 m st else st"
      let ?it = "iter\<lparr>stack23 := ?st\<rparr>"
      have nx: "twoThreeTreeIterator_Next iter = Some (Some v1, ?it)"
        using Cons two by (simp add: twoThreeTreeIterator_Next_def)
      from two have nil: "l = NilTT \<Longrightarrow> m = NilTT" by (cases k) auto
      from pushLeftPath23_full [OF two(3) st] nil
      have p: "stack_full ?st" "pending23 ?st = values23 m @ pending23 st"
        using st by auto
      with "1.IH" [OF nx refl refl] have "twoThreeTreeIterator_all ?it = Some (pending23 ?st)"
        by simp
      with nx Cons two p show ?thesis
        by (simp add: twoThreeTreeIterator_all.simps [of iter])
    next
      case (three l v1 m v2 r)
      let ?st1 = "Node2 m v2 r # st"
      let ?st = "if l \<noteq> NilTT then pushLeftPath23 m ?st1 else ?st1"
      let ?it = "iter\<lparr>stack23 := ?st\<rparr>"
      have nx: "twoThreeTreeIterator_Next iter = Some (Some v1, ?it)"
        using Cons three by (simp add: twoThreeTreeIterator_Next_def newTwoThreeNode_def)
      from three have nil: "l = NilTT \<Longrightarrow> m = NilTT" by (cases k) auto
      from three have "full (Suc k) (Node2 m v2 r)" by simp
      with st have st1: "stack_full ?st1" unfolding stack_full_def by (metis set_ConsD)
      from pushLeftPath23_full [OF three(3) st1] nil
      have p: "stack_full ?st" "pending23 ?st = values23 m @ v2 # values23 r @ pending23 st"
        using st1 by auto
      with "1.IH" [OF nx refl refl] have "twoThreeTreeIterator_all ?it = Some (pending23 ?st)"
        by simp
      with nx Cons three p show ?thesis
        by (simp add: twoThreeTreeIterator_all.simps [of iter])
    qed
  qed
qed

lemma TwoThreeTree_iterator_agrees:
  assumes "tt_inv t"
  shows "twoThreeTreeIterator_all (NewIterator t) = Visit t"
proof -
  from assms obtain h where h: "full h (root23 t)" unfolding tt_inv_def by blast
  have e: "stack_full []" by (simp add: stack_full_def)
  have s: "stack23 (NewIterator t) = pushLeftPath23 (root23 t) []"
    by (simp add: NewIterator_def twoThreeTreeIterator_Reset_def)
  from pushLeftPath23_full [OF h e] s
  have "stack_full (stack23 (NewIterator t))"
    "pending23 (stack23 (NewIterator t)) = values23 (root23 t)" by simp_all
  with twoThreeTreeIterator_all_pending [of "NewIterator t"] Visit_spec [OF assms]
  show ?thesis by simp
qed

text \<open>
  C7: for every BinaryTree, and for every TwoThreeTree that satisfies the invariant of the
  2-3 tree, in particular after any sequence of operations on an empty one, calling Next
  on a new inorder iterator until it reports false gives the sequence of values that the
  internal inorder traversal (VisitInorder, Visit) passes to the visitor.
\<close>

theorem external_iterator_agrees_with_visitor:
  "inorderIterator_all (NewInorderIterator tree) = Some (VisitInorder tree) \<and>
   (tt_inv t \<longrightarrow>
      (\<exists>xs. Visit t = Some xs \<and> twoThreeTreeIterator_all (NewIterator t) = Some xs)) \<and>
   (\<exists>t' xs. run TwoThreeTree_apply ops emptyTwoThreeTree = Some t' \<and>
       Visit t' = Some xs \<and> twoThreeTreeIterator_all (NewIterator t') = Some xs)"
proof (intro conjI impI)
  show "inorderIterator_all (NewInorderIterator tree) = Some (VisitInorder tree)"
    by (rule BinaryTree_iterator_agrees)
next
  assume "tt_inv t"
  then show "\<exists>xs. Visit t = Some xs \<and> twoThreeTreeIterator_all (NewIterator t) = Some xs"
    by (simp add: TwoThreeTree_iterator_agrees Visit_spec)
next
  from TwoThreeTree_run_spec [of ops] obtain t' where
    t: "run TwoThreeTree_apply ops emptyTwoThreeTree = Some t'" "tt_inv t'" by blast
  from t(2) have "Visit t' = Some (values23 (root23 t'))"
    "twoThreeTreeIterator_all (NewIterator t') = Some (values23 (root23 t'))"
    by (simp_all add: TwoThreeTree_iterator_agrees Visit_spec)
  with t(1) show "\<exists>t' xs. run TwoThreeTree_apply ops emptyTwoThreeTree = Some t' \<and>
       Visit t' = Some xs \<and> twoThreeTreeIterator_all (NewIterator t') = Some xs"
    by blast
qed

theorem external_iterator_agrees_with_visitor_witness:
  "inorderIterator_all
     (NewInorderIterator
        \<lparr>count = 3, root = BTNode (2::nat) (BTNode 1 NilBT NilBT 0) (BTNode 3 NilBT NilBT 0) 0\<rparr>)
     = Some [1, 2, 3] \<and>
   tt_inv \<lparr>count23 = 6,
           root23 = Node3 (Node2 NilTT (KeyValue (1::nat) ''a'') NilTT) (KeyValue 2 ''b'')
                          (Node2 NilTT (KeyValue 3 ''c'') NilTT) (KeyValue 4 ''d'')
                          (Node3 NilTT (KeyValue 5 ''e'') NilTT (KeyValue 6 ''f'') NilTT)\<rparr> \<and>
   twoThreeTreeIterator_all
     (NewIterator
        \<lparr>count23 = 6,
         root23 = Node3 (Node2 NilTT (KeyValue (1::nat) ''a'') NilTT) (KeyValue 2 ''b'')
                        (Node2 NilTT (KeyValue 3 ''c'') NilTT) (KeyValue 4 ''d'')
                        (Node3 NilTT (KeyValue 5 ''e'') NilTT (KeyValue 6 ''f'') NilTT)\<rparr>)
     = Some [KeyValue 1 ''a'', KeyValue 2 ''b'', KeyValue 3 ''c'', KeyValue 4 ''d'',
             KeyValue 5 ''e'', KeyValue 6 ''f'']"
proof -
  let ?t = "\<lparr>count23 = 6,
           root23 = Node3 (Node2 NilTT (KeyValue (1::nat) ''a'') NilTT) (KeyValue 2 ''b'')
                          (Node2 NilTT (KeyValue 3 ''c'') NilTT) (KeyValue 4 ''d'')
                          (Node3 NilTT (KeyValue 5 ''e'') NilTT (KeyValue 6 ''f'') NilTT)\<rparr>"
  have inv: "tt_inv ?t"
    unfolding tt_inv_def
    by (intro conjI exI [of _ 2]) (simp_all add: numeral_2_eq_2 ordered_def Less_def)
  from external_iterator_agrees_with_visitor
         [of "\<lparr>count = 3, root = BTNode (2::nat) (BTNode 1 NilBT NilBT 0) (BTNode 3 NilBT NilBT 0) 0\<rparr>"
             ?t "[]"] inv
  show ?thesis by (auto simp: VisitInorder_def Visit_def)
qed


section \<open>Subtree extraction in memory\<close>

lemma same_tree_clone: "same_tree (clone n) n"
  by (induction n) simp_all

lemma holds_Node:
  "holds s p (BTNode v l r h) =
     (\<exists>a c. p = Some a \<and> cells s a = Some c \<and> value_f c = v \<and> height_f c = h \<and>
            holds s (left_f c) l \<and> holds s (right_f c) r)"
  by (auto split: option.splits)

lemma nodes_of_Node:
  "cells s a = Some c \<Longrightarrow>
   nodes_of s (Some a) (BTNode v l r h) = {a} \<union> nodes_of s (left_f c) l \<union> nodes_of s (right_f c) r"
  by simp

declare holds.simps(2) [simp del] nodes_of.simps(2) [simp del]

lemma holds_frame:
  "holds s p n \<Longrightarrow> (\<And>a. a \<in> nodes_of s p n \<Longrightarrow> cells s' a = cells s a) \<Longrightarrow>
   holds s' p n \<and> nodes_of s' p n = nodes_of s p n"
proof (induction n arbitrary: p)
  case NilBT
  then show ?case by simp
next
  case (BTNode v l r h)
  from BTNode.prems(1) obtain a c where c: "p = Some a" "cells s a = Some c" "value_f c = v"
    "height_f c = h" "holds s (left_f c) l" "holds s (right_f c) r"
    unfolding holds_Node by blast
  have n: "nodes_of s p (BTNode v l r h) = {a} \<union> nodes_of s (left_f c) l \<union> nodes_of s (right_f c) r"
    using c by (simp add: nodes_of_Node)
  with BTNode.prems(2) have c': "cells s' a = Some c" using c(2) by simp
  have "holds s' (left_f c) l \<and> nodes_of s' (left_f c) l = nodes_of s (left_f c) l"
    using c(5) BTNode.prems(2) n by (intro BTNode.IH(1)) auto
  moreover have "holds s' (right_f c) r \<and> nodes_of s' (right_f c) r = nodes_of s (right_f c) r"
    using c(6) BTNode.prems(2) n by (intro BTNode.IH(2)) auto
  ultimately show ?case using c c' n by (simp add: holds_Node nodes_of_Node)
qed

lemma nodes_allocated:
  "holds s p n \<Longrightarrow> a \<in> nodes_of s p n \<Longrightarrow> cells s a \<noteq> None"
proof (induction n arbitrary: p)
  case NilBT
  then show ?case by simp
next
  case (BTNode v l r h)
  from BTNode.prems(1) obtain b c where c: "p = Some b" "cells s b = Some c"
    "holds s (left_f c) l" "holds s (right_f c) r"
    unfolding holds_Node by blast
  with BTNode.prems(2) have "a = b \<or> a \<in> nodes_of s (left_f c) l \<or> a \<in> nodes_of s (right_f c) r"
    by (simp add: nodes_of_Node)
  with c BTNode.IH show ?case by auto
qed

lemma size_m_holds: "holds s p n \<Longrightarrow> size_m s p = Some (size_bt n)"
proof (induction n arbitrary: p)
  case NilBT
  then show ?case by (simp add: size_m.simps)
next
  case (BTNode v l r h)
  from BTNode.prems obtain a c where c: "p = Some a" "cells s a = Some c"
    "holds s (left_f c) l" "holds s (right_f c) r"
    unfolding holds_Node by blast
  with BTNode.IH show ?case by (simp add: size_m.simps [of s "Some a"])
qed

lemma holds_below:
  assumes "holds s p n" "allocated s" "\<And>b. b < fresh s \<Longrightarrow> cells s' b = cells s b"
  shows "holds s' p n"
proof -
  have "\<And>b. b \<in> nodes_of s p n \<Longrightarrow> cells s' b = cells s b"
    using nodes_allocated [OF assms(1)] assms(2,3) by (auto simp: allocated_def)
  with holds_frame [OF assms(1)] show ?thesis by blast
qed

lemma clone_m_spec:
  assumes "holds s p n" "allocated s"
  shows "\<exists>p' s'. clone_m s p = Some (p', s') \<and> holds s' p' (clone n) \<and> allocated s' \<and>
           fresh s \<le> fresh s' \<and> (\<forall>b. b < fresh s \<longrightarrow> cells s' b = cells s b) \<and>
           nodes_of s' p' (clone n) \<subseteq> {b. fresh s \<le> b \<and> b < fresh s'}"
  using assms
proof (induction n arbitrary: s p)
  case NilBT
  then show ?case by (simp add: clone_m.simps)
next
  case (BTNode v l r h)
  from BTNode.prems(1) obtain a c where c: "p = Some a" "cells s a = Some c" "value_f c = v"
    "holds s (left_f c) l" "holds s (right_f c) r"
    unfolding holds_Node by blast
  have a: "a < fresh s" using c(2) BTNode.prems(2) by (auto simp: allocated_def)
  define c0 :: "'a btNode_mem" where
    "c0 = \<lparr>value_f = v, left_f = None, right_f = None, height_f = 0\<rparr>"
  define s1 where "s1 = s\<lparr>cells := (cells s)(fresh s \<mapsto> c0), fresh := Suc (fresh s)\<rparr>"
  have new: "new_btNode (value_f c) s = (fresh s, s1)"
    by (simp add: new_btNode_def s1_def c0_def c(3))
  have s1: "allocated s1" "fresh s1 = Suc (fresh s)" "cells s1 (fresh s) = Some c0"
    "\<And>b. b < fresh s \<Longrightarrow> cells s1 b = cells s b"
    using BTNode.prems(2) by (auto simp: s1_def allocated_def less_Suc_eq)
  have "holds s1 (left_f c) l"
    using c(4) BTNode.prems(2) s1(4) by (rule holds_below)
  from BTNode.IH(1) [OF this s1(1)] obtain l' s2 where
    l: "clone_m s1 (left_f c) = Some (l', s2)" "holds s2 l' (clone l)" "allocated s2"
       "fresh s1 \<le> fresh s2" "\<And>b. b < fresh s1 \<Longrightarrow> cells s2 b = cells s1 b"
       "nodes_of s2 l' (clone l) \<subseteq> {b. fresh s1 \<le> b \<and> b < fresh s2}"
    by blast
  define s3 where "s3 = s2\<lparr>cells := (cells s2)(fresh s \<mapsto> c0\<lparr>left_f := l'\<rparr>)\<rparr>"
  have c2: "cells s2 (fresh s) = Some c0" using l(5) [of "fresh s"] s1 by simp
  have set3: "set_left (fresh s) l' s2 = Some s3"
    by (simp add: set_left_def c2 s3_def)
  have s3: "allocated s3" "fresh s3 = fresh s2" "cells s3 (fresh s) = Some (c0\<lparr>left_f := l'\<rparr>)"
    "\<And>b. b \<noteq> fresh s \<Longrightarrow> cells s3 b = cells s2 b"
    using l(3) c2 by (auto simp: s3_def allocated_def)
  have below3: "\<And>b. b < fresh s \<Longrightarrow> cells s3 b = cells s b"
    using s3(4) l(5) s1(2,4) by simp
  have ca3: "cells s3 a = Some c" using below3 [OF a] c(2) by simp
  have "holds s3 (right_f c) r"
    using c(5) BTNode.prems(2) below3 by (rule holds_below)
  from BTNode.IH(2) [OF this s3(1)] obtain r' s4 where
    r: "clone_m s3 (right_f c) = Some (r', s4)" "holds s4 r' (clone r)" "allocated s4"
       "fresh s3 \<le> fresh s4" "\<And>b. b < fresh s3 \<Longrightarrow> cells s4 b = cells s3 b"
       "nodes_of s4 r' (clone r) \<subseteq> {b. fresh s3 \<le> b \<and> b < fresh s4}"
    by blast
  define c5 where "c5 = c0\<lparr>left_f := l', right_f := r'\<rparr>"
  define s5 where "s5 = s4\<lparr>cells := (cells s4)(fresh s \<mapsto> c5)\<rparr>"
  have lt: "fresh s < fresh s3" using s3(2) l(4) s1(2) by simp
  have c4: "cells s4 (fresh s) = Some (c0\<lparr>left_f := l'\<rparr>)" using r(5) [OF lt] s3(3) by simp
  have set5: "set_right (fresh s) r' s4 = Some s5"
    by (simp add: set_right_def c4 s5_def c5_def)
  have s5: "allocated s5" "fresh s5 = fresh s4" "cells s5 (fresh s) = Some c5"
    "\<And>b. b \<noteq> fresh s \<Longrightarrow> cells s5 b = cells s4 b"
    using r(3) c4 by (auto simp: s5_def allocated_def)
  have run: "clone_m s p = Some (Some (fresh s), s5)"
    by (simp add: clone_m.simps [of s "Some a"] c(1,2) new l(1) set3 ca3 r(1) set5)
  have "\<And>b. b \<in> nodes_of s2 l' (clone l) \<Longrightarrow> cells s5 b = cells s2 b"
  proof -
    fix b assume "b \<in> nodes_of s2 l' (clone l)"
    with l(6) have b: "fresh s1 \<le> b" "b < fresh s2" by auto
    with s1(2) have "b \<noteq> fresh s" by simp
    with b s3(2,4) s5(4) r(5) show "cells s5 b = cells s2 b" by simp
  qed
  with holds_frame [OF l(2)] have l5: "holds s5 l' (clone l)"
    "nodes_of s5 l' (clone l) = nodes_of s2 l' (clone l)" by blast+
  have "\<And>b. b \<in> nodes_of s4 r' (clone r) \<Longrightarrow> cells s5 b = cells s4 b"
  proof -
    fix b assume "b \<in> nodes_of s4 r' (clone r)"
    with r(6) have "fresh s3 \<le> b" by auto
    with lt have "b \<noteq> fresh s" by simp
    with s5(4) show "cells s5 b = cells s4 b" by simp
  qed
  with holds_frame [OF r(2)] have r5: "holds s5 r' (clone r)"
    "nodes_of s5 r' (clone r) = nodes_of s4 r' (clone r)" by blast+
  have h5: "holds s5 (Some (fresh s)) (clone (BTNode v l r h))"
    using l5(1) r5(1) s5(3) by (simp add: holds_Node c5_def c0_def)
  have frame: "\<forall>b. b < fresh s \<longrightarrow> cells s5 b = cells s b"
    using s5(4) r(5) lt below3 by simp
  have "nodes_of s5 (Some (fresh s)) (clone (BTNode v l r h)) =
          {fresh s} \<union> nodes_of s2 l' (clone l) \<union> nodes_of s4 r' (clone r)"
    using s5(3) l5(2) r5(2) by (simp add: nodes_of_Node c5_def c0_def)
  moreover have le5: "fresh s \<le> fresh s5" "fresh s2 \<le> fresh s5" "fresh s < fresh s5"
    using s5(2) r(4) lt s3(2) by simp_all
  moreover have "nodes_of s2 l' (clone l) \<subseteq> {b. fresh s \<le> b \<and> b < fresh s5}"
    using l(6) s1(2) le5(2) by auto
  moreover have "nodes_of s4 r' (clone r) \<subseteq> {b. fresh s \<le> b \<and> b < fresh s5}"
    using r(6) s3(2) s5(2) lt by auto
  ultimately have nodes: "nodes_of s5 (Some (fresh s)) (clone (BTNode v l r h)) \<subseteq>
      {b. fresh s \<le> b \<and> b < fresh s5}"
    by auto
  show ?case
    using run h5 s5(1) le5(1) frame nodes by blast
qed

text \<open>
  C8: on the empty tree LeftSubtree and RightSubtree return EmptyTreeError and change
  nothing. On a non-empty tree they return a tree whose root is a copy of the left (right)
  subtree of the root, with the same values and shape, and whose count is the size of that
  subtree; every node of the copy is at an address that had no cell before the call, so the
  copy shares no node with the source tree; every cell that existed before the call is
  unchanged, and the source tree keeps its root, its count and its nodes.
\<close>

theorem subtree_is_fresh_deep_copy:
  "(root_m tree = None \<longrightarrow>
      LeftSubtree_m s tree =
        Some (Inl (EmptyTreeError ''The empty tree has no left subtree''), tree, s) \<and>
      RightSubtree_m s tree =
        Some (Inl (EmptyTreeError ''The empty tree has no right subtree''), tree, s)) \<and>
   (allocated s \<and> holds s (root_m tree) (BTNode v l r h) \<longrightarrow>
      (\<exists>res s'.
          LeftSubtree_m s tree = Some (Inr res, tree, s') \<and>
          holds s' (root_m res) (clone l) \<and> same_tree (clone l) l \<and>
          count_m res = size_bt l \<and>
          nodes_of s' (root_m res) (clone l) \<inter> {a. cells s a \<noteq> None} = {} \<and>
          (\<forall>a. cells s a \<noteq> None \<longrightarrow> cells s' a = cells s a) \<and>
          holds s' (root_m tree) (BTNode v l r h)) \<and>
      (\<exists>res s'.
          RightSubtree_m s tree = Some (Inr res, tree, s') \<and>
          holds s' (root_m res) (clone r) \<and> same_tree (clone r) r \<and>
          count_m res = size_bt r \<and>
          nodes_of s' (root_m res) (clone r) \<inter> {a. cells s a \<noteq> None} = {} \<and>
          (\<forall>a. cells s a \<noteq> None \<longrightarrow> cells s' a = cells s a) \<and>
          holds s' (root_m tree) (BTNode v l r h)))"
proof (intro conjI impI)
  assume "root_m tree = None"
  then show "LeftSubtree_m s tree =
      Some (Inl (EmptyTreeError ''The empty tree has no left subtree''), tree, s)"
    by (simp add: LeftSubtree_m_def)
next
  assume "root_m tree = None"
  then show "RightSubtree_m s tree =
      Some (Inl (EmptyTreeError ''The empty tree has no right subtree''), tree, s)"
    by (simp add: RightSubtree_m_def)
next
  assume a: "allocated s \<and> holds s (root_m tree) (BTNode v l r h)"
  then obtain a c where c: "root_m tree = Some a" "cells s a = Some c"
    "holds s (left_f c) l" "holds s (right_f c) r"
    unfolding holds_Node by blast
  from clone_m_spec [OF c(3)] a obtain p s' where
    p: "clone_m s (left_f c) = Some (p, s')" "holds s' p (clone l)"
       "\<And>b. b < fresh s \<Longrightarrow> cells s' b = cells s b"
       "nodes_of s' p (clone l) \<subseteq> {b. fresh s \<le> b \<and> b < fresh s'}"
    by blast
  have run: "LeftSubtree_m s tree = Some (Inr \<lparr>count_m = size_bt l, root_m = p\<rparr>, tree, s')"
    by (simp add: LeftSubtree_m_def c(1,2) size_m_holds [OF c(3)] p(1))
  have old: "\<forall>b. cells s b \<noteq> None \<longrightarrow> cells s' b = cells s b"
    using a p(3) by (auto simp: allocated_def)
  have disj: "nodes_of s' p (clone l) \<inter> {b. cells s b \<noteq> None} = {}"
    using a p(4) by (fastforce simp: allocated_def)
  have src: "holds s' (root_m tree) (BTNode v l r h)"
    using a p(3) by (auto intro: holds_below)
  show "\<exists>res s'.
          LeftSubtree_m s tree = Some (Inr res, tree, s') \<and>
          holds s' (root_m res) (clone l) \<and> same_tree (clone l) l \<and>
          count_m res = size_bt l \<and>
          nodes_of s' (root_m res) (clone l) \<inter> {a. cells s a \<noteq> None} = {} \<and>
          (\<forall>a. cells s a \<noteq> None \<longrightarrow> cells s' a = cells s a) \<and>
          holds s' (root_m tree) (BTNode v l r h)"
    using run p(2) same_tree_clone [of l] disj old src
    by (intro exI [of _ "\<lparr>count_m = size_bt l, root_m = p\<rparr>"] exI [of _ s']) simp
next
  assume a: "allocated s \<and> holds s (root_m tree) (BTNode v l r h)"
  then obtain a c where c: "root_m tree = Some a" "cells s a = Some c"
    "holds s (left_f c) l" "holds s (right_f c) r"
    unfolding holds_Node by blast
  from clone_m_spec [OF c(4)] a obtain p s' where
    p: "clone_m s (right_f c) = Some (p, s')" "holds s' p (clone r)"
       "\<And>b. b < fresh s \<Longrightarrow> cells s' b = cells s b"
       "nodes_of s' p (clone r) \<subseteq> {b. fresh s \<le> b \<and> b < fresh s'}"
    by blast
  have run: "RightSubtree_m s tree = Some (Inr \<lparr>count_m = size_bt r, root_m = p\<rparr>, tree, s')"
    by (simp add: RightSubtree_m_def c(1,2) size_m_holds [OF c(4)] p(1))
  have old: "\<forall>b. cells s b \<noteq> None \<longrightarrow> cells s' b = cells s b"
    using a p(3) by (auto simp: allocated_def)
  have disj: "nodes_of s' p (clone r) \<inter> {b. cells s b \<noteq> None} = {}"
    using a p(4) by (fastforce simp: allocated_def)
  have src: "holds s' (root_m tree) (BTNode v l r h)"
    using a p(3) by (auto intro: holds_below)
  show "\<exists>res s'.
          RightSubtree_m s tree = Some (Inr res, tree, s') \<and>
          holds s' (root_m res) (clone r) \<and> same_tree (clone r) r \<and>
          count_m res = size_bt r \<and>
          nodes_of s' (root_m res) (clone r) \<inter> {a. cells s a \<noteq> None} = {} \<and>
          (\<forall>a. cells s a \<noteq> None \<longrightarrow> cells s' a = cells s a) \<and>
          holds s' (root_m tree) (BTNode v l r h)"
    using run p(2) same_tree_clone [of r] disj old src
    by (intro exI [of _ "\<lparr>count_m = size_bt r, root_m = p\<rparr>"] exI [of _ s']) simp
qed

theorem subtree_is_fresh_deep_copy_witness:
  "allocated
     \<lparr>cells = (\<lambda>a. None)
        (0 \<mapsto> \<lparr>value_f = 5::nat, left_f = Some 1, right_f = None, height_f = 1\<rparr>,
         1 \<mapsto> \<lparr>value_f = 3, left_f = None, right_f = None, height_f = 0\<rparr>),
      fresh = 2\<rparr> \<and>
   holds
     \<lparr>cells = (\<lambda>a. None)
        (0 \<mapsto> \<lparr>value_f = 5::nat, left_f = Some 1, right_f = None, height_f = 1\<rparr>,
         1 \<mapsto> \<lparr>value_f = 3, left_f = None, right_f = None, height_f = 0\<rparr>),
      fresh = 2\<rparr>
     (Some 0) (BTNode 5 (BTNode 3 NilBT NilBT 0) NilBT 1) \<and>
   (\<exists>res s'.
      LeftSubtree_m
        \<lparr>cells = (\<lambda>a. None)
           (0 \<mapsto> \<lparr>value_f = 5::nat, left_f = Some 1, right_f = None, height_f = 1\<rparr>,
            1 \<mapsto> \<lparr>value_f = 3, left_f = None, right_f = None, height_f = 0\<rparr>),
         fresh = 2\<rparr>
        \<lparr>count_m = 2, root_m = Some 0\<rparr> =
        Some (Inr res, \<lparr>count_m = 2, root_m = Some 0\<rparr>, s') \<and>
      holds s' (root_m res) (BTNode 3 NilBT NilBT 0) \<and> count_m res = 1 \<and>
      nodes_of s' (root_m res) (BTNode 3 NilBT NilBT 0) \<inter> {0, 1} = {} \<and>
      holds s' (Some 0) (BTNode 5 (BTNode 3 NilBT NilBT 0) NilBT 1)) \<and>
   (\<exists>res s'.
      RightSubtree_m
        \<lparr>cells = (\<lambda>a. None)
           (0 \<mapsto> \<lparr>value_f = 5::nat, left_f = Some 1, right_f = None, height_f = 1\<rparr>,
            1 \<mapsto> \<lparr>value_f = 3, left_f = None, right_f = None, height_f = 0\<rparr>),
         fresh = 2\<rparr>
        \<lparr>count_m = 2, root_m = Some 0\<rparr> =
        Some (Inr res, \<lparr>count_m = 2, root_m = Some 0\<rparr>, s') \<and>
      root_m res = None \<and> count_m res = 0)"
proof -
  let ?s = "\<lparr>cells = (\<lambda>a. None)
        (0 \<mapsto> \<lparr>value_f = 5::nat, left_f = Some 1, right_f = None, height_f = 1\<rparr>,
         1 \<mapsto> \<lparr>value_f = 3, left_f = None, right_f = None, height_f = 0\<rparr>),
      fresh = 2\<rparr>"
  have a: "allocated ?s" by (simp add: allocated_def)
  have h: "holds ?s (Some 0) (BTNode 5 (BTNode 3 NilBT NilBT 0) NilBT 1)"
    by (simp add: holds_Node)
  have c: "{a. cells ?s a \<noteq> None} = {0, 1}" by auto
  from subtree_is_fresh_deep_copy
         [of "\<lparr>count_m = 2, root_m = Some 0\<rparr>" ?s 5 "BTNode 3 NilBT NilBT 0" NilBT 1] a h c
  show ?thesis by simp blast
qed

end
